theory Spec2Isabelle
  imports Complex_Main
begin

section \<open>Python strings\<close>

text \<open>
  Strings are lists of characters. The model covers ASCII text: \<open>str.strip\<close>,
  \<open>str.split\<close> and \<open>str.lower\<close> are written out for the ASCII white space
  characters and the letters A to Z.
\<close>

definition is_space :: "char \<Rightarrow> bool" where
  "is_space c =
     (c \<in> set [CHR 0x09, CHR 0x0A, CHR 0x0B, CHR 0x0C, CHR 0x0D,
                CHR 0x1C, CHR 0x1D, CHR 0x1E, CHR 0x1F, CHR 0x20])"

definition str_strip :: "string \<Rightarrow> string" where
  "str_strip s = rev (dropWhile is_space (rev (dropWhile is_space s)))"

definition lower_char :: "char \<Rightarrow> char" where
  "lower_char c =
     (case map_of (zip ''ABCDEFGHIJKLMNOPQRSTUVWXYZ'' ''abcdefghijklmnopqrstuvwxyz'') c of
        None \<Rightarrow> c
      | Some d \<Rightarrow> d)"

definition str_lower :: "string \<Rightarrow> string" where
  "str_lower s = map lower_char s"

text \<open>\<open>s.split()\<close>: the maximal runs of characters that are not white space.
  The second argument is the word being read, in reverse.\<close>

fun split_acc :: "string \<Rightarrow> string \<Rightarrow> string list" where
  "split_acc [] w = (if w = [] then [] else [rev w])"
| "split_acc (c # cs) w =
     (if is_space c then (if w = [] then split_acc cs [] else rev w # split_acc cs [])
      else split_acc cs (c # w))"

definition str_split :: "string \<Rightarrow> string list" where
  "str_split s = split_acc s []"

text \<open>\<open>' '.join(xs)\<close>\<close>

fun str_join :: "string list \<Rightarrow> string" where
  "str_join [] = []"
| "str_join [x] = x"
| "str_join (x # y # ys) = x @ CHR 0x20 # str_join (y # ys)"

definition endswith :: "string \<Rightarrow> string \<Rightarrow> bool" where
  "endswith s suf = (length suf \<le> length s \<and> drop (length s - length suf) s = suf)"

section \<open>Errors\<close>

datatype py_error = KeyError string | AttributeError | IndexError | ValueError | RuntimeError

section \<open>cleaning\_pairs.py: deduplication\<close>

text \<open>
  A QA record is a dictionary from field names to values, as \<open>csv.DictReader\<close> yields
  it in \<open>load_qa_pairs\<close>: the value of a field is a string, or \<open>None\<close> where the row
  of the file was shorter than the header. A field can also be absent from a dictionary.
  \<open>fuzz.token_set_ratio\<close> of the rapidfuzz library is a parameter \<open>tsr\<close> of the
  model: a score between 0 and 100.
\<close>

datatype pyval = Str string | PyNone

type_synonym qa_record = "string \<rightharpoonup> pyval"

definition fuzzy_match_threshold :: real where
  "fuzzy_match_threshold = 90"

definition is_fuzzy_duplicate :: "(string \<Rightarrow> string \<Rightarrow> real) \<Rightarrow> string \<Rightarrow> string \<Rightarrow> real \<Rightarrow> bool" where
  "is_fuzzy_duplicate tsr q1 q2 threshold = (tsr (str_lower q1) (str_lower q2) \<ge> threshold)"

text \<open>
  \<open>any(is_fuzzy_duplicate(q, other['Question']) for other in unique_pairs)\<close>:
  the generator is consumed from the left and stops at the first true value; a record
  without the field raises KeyError when it is reached, and one with \<open>None\<close> in the
  field raises AttributeError (\<open>None\<close> has no method \<open>lower\<close>).
\<close>

fun any_fuzzy :: "(string \<Rightarrow> string \<Rightarrow> real) \<Rightarrow> string \<Rightarrow> qa_record list \<Rightarrow> py_error + bool" where
  "any_fuzzy tsr q [] = Inr False"
| "any_fuzzy tsr q (other # others) =
     (case other ''Question'' of
        None \<Rightarrow> Inl (KeyError ''Question'')
      | Some PyNone \<Rightarrow> Inl AttributeError
      | Some (Str oq) \<Rightarrow>
          if is_fuzzy_duplicate tsr q oq fuzzy_match_threshold then Inr True
          else any_fuzzy tsr q others)"

record dedup_state =
  seen_exact :: "(string \<times> string) set"
  unique_pairs :: "qa_record list"

text \<open>
  The body of the loop of \<open>deduplicate\<close>, for one record \<open>current\<close>. The subscript
  \<open>current['Question']\<close> raises KeyError where the field is absent, and \<open>.strip()\<close>
  raises AttributeError where its value is \<open>None\<close>; the Question is read first.
\<close>

definition dedup_step :: "(string \<Rightarrow> string \<Rightarrow> real) \<Rightarrow> dedup_state \<Rightarrow> qa_record \<Rightarrow> py_error + dedup_state" where
  "dedup_step tsr st current =
     (case current ''Question'' of
        None \<Rightarrow> Inl (KeyError ''Question'')
      | Some PyNone \<Rightarrow> Inl AttributeError
      | Some (Str qraw) \<Rightarrow>
         (case current ''Answer'' of
            None \<Rightarrow> Inl (KeyError ''Answer'')
          | Some PyNone \<Rightarrow> Inl AttributeError
          | Some (Str araw) \<Rightarrow>
             (let q = str_strip qraw;
                  a = str_strip araw;
                  key = (str_lower q, str_lower a)
              in if key \<in> seen_exact st then Inr st
                 else
                  (let st1 = st\<lparr>seen_exact := insert key (seen_exact st)\<rparr>
                   in case any_fuzzy tsr q (unique_pairs st1) of
                        Inl e \<Rightarrow> Inl e
                      | Inr is_duplicate \<Rightarrow>
                          if \<not> is_duplicate
                          then Inr (st1\<lparr>unique_pairs := unique_pairs st1 @ [current]\<rparr>)
                          else Inr st1))))"

fun dedup_loop :: "(string \<Rightarrow> string \<Rightarrow> real) \<Rightarrow> qa_record list \<Rightarrow> dedup_state \<Rightarrow> py_error + dedup_state" where
  "dedup_loop tsr [] st = Inr st"
| "dedup_loop tsr (current # rest) st =
     (case dedup_step tsr st current of
        Inl e \<Rightarrow> Inl e
      | Inr st' \<Rightarrow> dedup_loop tsr rest st')"

definition init_state :: dedup_state where
  "init_state = \<lparr>seen_exact = {}, unique_pairs = []\<rparr>"

definition deduplicate :: "(string \<Rightarrow> string \<Rightarrow> real) \<Rightarrow> qa_record list \<Rightarrow> py_error + qa_record list" where
  "deduplicate tsr pairs =
     (case dedup_loop tsr pairs init_state of
        Inl e \<Rightarrow> Inl e
      | Inr st \<Rightarrow> Inr (unique_pairs st))"

text \<open>The exact key of a record that has a string in both fields, as the loop computes
  it.\<close>

definition exact_key :: "qa_record \<Rightarrow> (string \<times> string) option" where
  "exact_key r =
     (case r ''Question'' of
        None \<Rightarrow> None
      | Some PyNone \<Rightarrow> None
      | Some (Str qraw) \<Rightarrow>
         (case r ''Answer'' of
            None \<Rightarrow> None
          | Some PyNone \<Rightarrow> None
          | Some (Str araw) \<Rightarrow> Some (str_lower (str_strip qraw), str_lower (str_strip araw))))"

text \<open>
  The exception the first two statements of the loop body raise for a record, if any:
  \<open>q = current['Question'].strip()\<close>, then \<open>a = current['Answer'].strip()\<close>.
\<close>

definition field_error :: "qa_record \<Rightarrow> py_error option" where
  "field_error r =
     (case r ''Question'' of
        None \<Rightarrow> Some (KeyError ''Question'')
      | Some PyNone \<Rightarrow> Some AttributeError
      | Some (Str qraw) \<Rightarrow>
         (case r ''Answer'' of
            None \<Rightarrow> Some (KeyError ''Answer'')
          | Some PyNone \<Rightarrow> Some AttributeError
          | Some (Str araw) \<Rightarrow> None))"

text \<open>A record with the two fields given (the chunk index plays no part).\<close>

definition qa :: "string \<Rightarrow> string \<Rightarrow> qa_record" where
  "qa q a = [''Question'' \<mapsto> Str q, ''Answer'' \<mapsto> Str a]"

text \<open>
  A stand-in for \<open>fuzz.token_set_ratio\<close> on the example inputs: equal strings score 100,
  as in rapidfuzz for strings with at least one token; the other pairs of the examples
  score below the threshold there, and 0 here.
\<close>

definition equal_ratio :: "string \<Rightarrow> string \<Rightarrow> real" where
  "equal_ratio a b = (if a = b then 100 else 0)"

section \<open>scrapper2.py: chunking a section by sentences\<close>

text \<open>
  \<open>sent_tokenize\<close> of NLTK is a parameter of the model. A chunk is a pair of the section
  heading and the chunk text.
\<close>

type_synonym chunk = "string \<times> string"

text \<open>
  The loop of \<open>split_section_into_chunks\<close> over the sentences; the state is
  \<open>(current_chunk, word_count, result)\<close>.
\<close>

fun chunk_loop :: "string \<Rightarrow> int \<Rightarrow> string list \<Rightarrow> string list \<times> int \<times> chunk list \<Rightarrow> string list \<times> int \<times> chunk list" where
  "chunk_loop heading max_words [] (current_chunk, word_count, result) =
     (current_chunk, word_count, result)"
| "chunk_loop heading max_words (sent # sents) (current_chunk, word_count, result) =
     (let current_chunk1 = current_chunk @ [sent];
          word_count1 = word_count + int (length (str_split sent))
      in if word_count1 \<ge> max_words
         then chunk_loop heading max_words sents
                ([], 0, result @ [(heading, str_join current_chunk1)])
         else chunk_loop heading max_words sents (current_chunk1, word_count1, result))"

definition split_section_into_chunks :: "(string \<Rightarrow> string list) \<Rightarrow> string \<Rightarrow> string \<Rightarrow> int \<Rightarrow> chunk list" where
  "split_section_into_chunks sent_tokenize heading text max_words =
     (case chunk_loop heading max_words (sent_tokenize text) ([], 0, []) of
        (current_chunk, word_count, result) \<Rightarrow>
          if current_chunk \<noteq> [] then result @ [(heading, str_join current_chunk)]
          else result)"

text \<open>
  The same loop, keeping for every emitted chunk the list of its sentences instead of
  their joined text: the sentences of the chunks, in emission order.
\<close>

fun group_loop :: "int \<Rightarrow> string list \<Rightarrow> string list \<times> int \<times> string list list \<Rightarrow> string list \<times> int \<times> string list list" where
  "group_loop max_words [] (current_chunk, word_count, groups) =
     (current_chunk, word_count, groups)"
| "group_loop max_words (sent # sents) (current_chunk, word_count, groups) =
     (let current_chunk1 = current_chunk @ [sent];
          word_count1 = word_count + int (length (str_split sent))
      in if word_count1 \<ge> max_words
         then group_loop max_words sents ([], 0, groups @ [current_chunk1])
         else group_loop max_words sents (current_chunk1, word_count1, groups))"

definition sentence_groups :: "int \<Rightarrow> string list \<Rightarrow> string list list" where
  "sentence_groups max_words sentences =
     (case group_loop max_words sentences ([], 0, []) of
        (current_chunk, word_count, groups) \<Rightarrow>
          if current_chunk \<noteq> [] then groups @ [current_chunk] else groups)"

text \<open>The number of words of a text, \<open>len(text.split())\<close>.\<close>

definition word_count_of :: "string \<Rightarrow> int" where
  "word_count_of s = int (length (str_split s))"

text \<open>
  A stand-in for \<open>sent_tokenize\<close> on the example texts: the sentences NLTK's English
  tokenizer gives for them. Every other non-empty text is taken as one sentence.
\<close>

definition example_sent_tokenize :: "string \<Rightarrow> string list" where
  "example_sent_tokenize text =
     (if text = [] then []
      else if text = ''The car is red. It is fast too.''
      then [''The car is red.'', ''It is fast too.'']
      else [text])"

text \<open>
  The invariant of the loop: \<open>word_count\<close> is the number of words of the open chunk,
  which is below \<open>max_words\<close> unless the chunk is empty; every emitted chunk reached
  \<open>max_words\<close>, and before its last sentence it was below.
\<close>

definition chunk_inv :: "int \<Rightarrow> string list \<times> int \<times> string list list \<Rightarrow> bool" where
  "chunk_inv mw s = (case s of (cur, wc, gs) \<Rightarrow>
      wc = sum_list (map word_count_of cur) \<and> (cur = [] \<or> wc < mw) \<and>
      (\<forall>g\<in>set gs. g \<noteq> [] \<and> sum_list (map word_count_of g) \<ge> mw \<and>
          (length g = 1 \<or> sum_list (map word_count_of (butlast g)) < mw)))"

section \<open>Regular expressions\<close>

text \<open>
  The regular expression engine (\<open>re\<close>) is outside the repository. Its operations on the
  patterns of the source are parameters of the model, gathered in a record: the five
  substitutions of \<open>clean_text\<close>, and the matches of the two heading patterns. A match
  is given by its span and the text of its group 1.
\<close>

record rmatch =
  m_start :: nat
  m_end :: nat
  m_group1 :: string

record regex_engine =
  sub_urls :: "string \<Rightarrow> string"
  sub_tags :: "string \<Rightarrow> string"
  sub_citations :: "string \<Rightarrow> string"
  sub_citations_pp :: "string \<Rightarrow> string"
  sub_captions :: "string \<Rightarrow> string"
  sub_whitespace :: "string \<Rightarrow> string"
  finditer_pdf :: "string \<Rightarrow> rmatch list"
  finditer_sections :: "string \<Rightarrow> rmatch list"

text \<open>\<open>text[i:j]\<close> for indices that are not negative.\<close>

definition slice :: "string \<Rightarrow> nat \<Rightarrow> nat \<Rightarrow> string" where
  "slice s i j = take (j - i) (drop i s)"

text \<open>
  \<open>pattern.split(text)\<close> for a pattern with one group, from the matches of the pattern:
  the text before the first match, then for each match its group 1 and the text up to the
  next match (or to the end).
\<close>

fun re_split_from :: "string \<Rightarrow> nat \<Rightarrow> rmatch list \<Rightarrow> string list" where
  "re_split_from text pos [] = [drop pos text]"
| "re_split_from text pos (m # ms) =
     slice text pos (m_start m) # m_group1 m # re_split_from text (m_end m) ms"

definition re_split :: "string \<Rightarrow> rmatch list \<Rightarrow> string list" where
  "re_split text ms = re_split_from text 0 ms"

section \<open>scrapper2.py: pattern-based segmentation\<close>

definition clean_text :: "regex_engine \<Rightarrow> string \<Rightarrow> string" where
  "clean_text re text =
     str_strip (sub_whitespace re (sub_captions re (sub_citations re
       (sub_tags re (sub_urls re text)))))"

text \<open>The loop of \<open>split_pdf_with_nlp\<close> over the matches, from match \<open>i\<close> on.\<close>

fun pdf_sections_loop :: "(string \<Rightarrow> string list) \<Rightarrow> string \<Rightarrow> int \<Rightarrow> rmatch list \<Rightarrow> chunk list" where
  "pdf_sections_loop sent_tokenize text max_words [] = []"
| "pdf_sections_loop sent_tokenize text max_words (m # ms) =
     (let heading = str_strip (m_group1 m);
          start = m_end m;
          stop = (case ms of [] \<Rightarrow> length text | m1 # _ \<Rightarrow> m_start m1);
          section_body = str_strip (slice text start stop)
      in split_section_into_chunks sent_tokenize heading section_body max_words
         @ pdf_sections_loop sent_tokenize text max_words ms)"

definition split_pdf_with_nlp :: "regex_engine \<Rightarrow> (string \<Rightarrow> string list) \<Rightarrow> string \<Rightarrow> int \<Rightarrow> chunk list" where
  "split_pdf_with_nlp re sent_tokenize text0 max_words =
     (let text = clean_text re text0;
          matches = finditer_pdf re text
      in if matches = []
         then split_section_into_chunks sent_tokenize ''Generic'' text max_words
         else pdf_sections_loop sent_tokenize text max_words matches)"

section \<open>data\_preprocessing.py: segmentation with fixed windows\<close>

definition clean_text_pp :: "regex_engine \<Rightarrow> string \<Rightarrow> string" where
  "clean_text_pp re text =
     str_strip (sub_whitespace re (sub_captions re (sub_citations_pp re
       (sub_tags re (sub_urls re text)))))"

text \<open>\<open>range(0, n, step)\<close> for a positive step.\<close>

definition py_range :: "nat \<Rightarrow> nat \<Rightarrow> nat list" where
  "py_range n step = map (\<lambda>k. k * step) [0..<(n + step - 1) div step]"

text \<open>
  The body of the loop of \<open>split_by_sections\<close> for one section: the chunks it appends.
  A step of zero makes \<open>range\<close> raise ValueError; a negative step gives an empty range.
\<close>

definition section_windows :: "regex_engine \<Rightarrow> string \<Rightarrow> string \<Rightarrow> int \<Rightarrow> py_error + chunk list" where
  "section_windows re heading raw_body max_words =
     (let body = clean_text_pp re raw_body;
          words = str_split body
      in if int (length words) > max_words
         then (let step = max_words div 2
               in if step = 0 then Inl ValueError
                  else if step < 0 then Inr []
                  else Inr (map (\<lambda>j. (heading, str_join (take (nat max_words) (drop j words))))
                              (py_range (length words) (nat step))))
         else Inr [(heading, body)])"

text \<open>
  The loop \<open>for i in range(1, len(sections), 2)\<close>, over the list \<open>sections[1:]\<close> taken
  two elements at a time: \<open>sections[i]\<close> and \<open>sections[i + 1]\<close>.
\<close>

fun sections_loop :: "regex_engine \<Rightarrow> int \<Rightarrow> string list \<Rightarrow> py_error + chunk list" where
  "sections_loop re max_words [] = Inr []"
| "sections_loop re max_words [h] = Inl IndexError"
| "sections_loop re max_words (h # b # rest) =
     (case section_windows re (str_strip h) b max_words of
        Inl e \<Rightarrow> Inl e
      | Inr cs \<Rightarrow>
         (case sections_loop re max_words rest of
            Inl e \<Rightarrow> Inl e
          | Inr cs1 \<Rightarrow> Inr (cs @ cs1)))"

definition split_by_sections :: "regex_engine \<Rightarrow> string \<Rightarrow> int \<Rightarrow> py_error + chunk list" where
  "split_by_sections re text max_words =
     (let sections = re_split text (finditer_sections re text)
      in sections_loop re max_words (drop 1 sections))"

text \<open>A match moved \<open>k\<close> characters to the right: the same match in a text that has
  \<open>k\<close> more characters in front.\<close>

definition shift_match :: "nat \<Rightarrow> rmatch \<Rightarrow> rmatch" where
  "shift_match k m = m\<lparr>m_start := m_start m + k, m_end := m_end m + k\<rparr>"

text \<open>
  A stand-in for the engine on the example texts. These hold no URL, tag, citation or
  caption, and no run of two or more white space characters, so the first four
  substitutions leave them as they are and the last one turns each white space character
  into a blank. The matches are those the two heading patterns have on these texts; on the
  other example texts the patterns have no match.
\<close>

definition example_engine :: regex_engine where
  "example_engine =
     \<lparr>sub_urls = (\<lambda>t. t), sub_tags = (\<lambda>t. t), sub_citations = (\<lambda>t. t),
      sub_citations_pp = (\<lambda>t. t), sub_captions = (\<lambda>t. t),
      sub_whitespace = map (\<lambda>c. if is_space c then CHR 0x20 else c),
      finditer_pdf = (\<lambda>t.
        if t = ''old text Summary: The car is red.''
          then [\<lparr>m_start = 8, m_end = 17, m_group1 = ''Summary''\<rparr>]
        else if t = ''new Summary: The car is red.''
          then [\<lparr>m_start = 3, m_end = 12, m_group1 = ''Summary''\<rparr>]
        else []),
      finditer_sections = (\<lambda>t.
        if t = ''Heading'' @ [CHR 0x0A]
          then [\<lparr>m_start = 0, m_end = 8, m_group1 = ''Heading''\<rparr>]
        else if t = ''intro text'' @ [CHR 0x0A] @ ''Heading'' @ [CHR 0x0A] @ ''The car is red.''
          then [\<lparr>m_start = 10, m_end = 19, m_group1 = ''Heading''\<rparr>]
        else if t = ''other'' @ [CHR 0x0A] @ ''Heading'' @ [CHR 0x0A] @ ''The car is red.''
          then [\<lparr>m_start = 5, m_end = 14, m_group1 = ''Heading''\<rparr>]
        else [])\<rparr>"

section \<open>generate\_QA.py and chunks\_eval2.py: calling the oracles\<close>

text \<open>
  What a call of an oracle function does to the outside is kept as a list of events: the
  calls of the service, by attempt number, and the requested sleeps, in seconds. The
  service, the JSON parser and the random numbers are parameters: \<open>post k\<close> is what
  the request of attempt \<open>k\<close> gives, \<open>loads\<close> is \<open>json.loads\<close>, and
  \<open>uniform k\<close> is the random number drawn at attempt \<open>k\<close>.
\<close>

text \<open>
  \<open>json.loads\<close> returns the parsed value, raises \<open>json.JSONDecodeError\<close>, or raises
  another exception (RecursionError on deep nesting, ValueError on an oversized number).
  The two kinds of exception are kept apart: \<open>generate_questions_groq\<close> catches only
  the first where it parses the reply.
\<close>

datatype 'j loads_result = Parsed 'j | JSONDecodeError | LoadsRaised

datatype event = Call nat | Sleep real

text \<open>
  A request raises (time-out, connection error), or gives a response with a status code;
  of a response we keep the message content that
  \<open>response.json()["choices"][0]["message"]["content"]\<close> extracts, if that does not
  raise and gives a string (on another value \<open>json.loads\<close> raises TypeError, which
  reaches the same handler as an exception of the extraction).
\<close>

datatype http_reply = PostRaised | Response int "string option"

datatype 'j outcome =
    Returned 'j
  | ReturnedEmptyList
  | RaisedRuntimeError
  | Reraised
  | ReturnedNone

definition then_events :: "event list \<Rightarrow> event list \<times> 'a \<Rightarrow> event list \<times> 'a" where
  "then_events evs r = (evs @ fst r, snd r)"

text \<open>The loop \<open>for attempt in range(retries)\<close> of \<open>generate_questions_groq\<close>.\<close>

fun groq_loop :: "(nat \<Rightarrow> http_reply) \<Rightarrow> (string \<Rightarrow> 'j loads_result) \<Rightarrow> (nat \<Rightarrow> real) \<Rightarrow> nat list \<Rightarrow> event list \<times> 'j outcome" where
  "groq_loop post loads uniform [] = ([], RaisedRuntimeError)"
| "groq_loop post loads uniform (attempt # rest) =
     (case post attempt of
        PostRaised \<Rightarrow>
          then_events [Call attempt, Sleep (2 ^ attempt + uniform attempt)]
            (groq_loop post loads uniform rest)
      | Response status_code message \<Rightarrow>
          if status_code = 200 then
            (case message of
               None \<Rightarrow>
                 then_events [Call attempt, Sleep (2 ^ attempt + uniform attempt)]
                   (groq_loop post loads uniform rest)
             | Some content \<Rightarrow>
                (case loads content of
                   Parsed v \<Rightarrow> ([Call attempt], Returned v)
                 | JSONDecodeError \<Rightarrow>
                    if endswith (str_strip content) ''}''
                    then (case loads (str_strip content @ '']'') of
                            Parsed v \<Rightarrow> ([Call attempt], Returned v)
                          | JSONDecodeError \<Rightarrow> ([Call attempt], ReturnedEmptyList)
                          | LoadsRaised \<Rightarrow> ([Call attempt], ReturnedEmptyList))
                    else ([Call attempt], ReturnedEmptyList)
                 | LoadsRaised \<Rightarrow>
                    then_events [Call attempt, Sleep (2 ^ attempt + uniform attempt)]
                      (groq_loop post loads uniform rest)))
          else
            then_events [Call attempt, Sleep (2 ^ attempt + uniform attempt)]
              (groq_loop post loads uniform rest))"

definition generate_questions_groq :: "(nat \<Rightarrow> http_reply) \<Rightarrow> (string \<Rightarrow> 'j loads_result) \<Rightarrow> (nat \<Rightarrow> real) \<Rightarrow> int \<Rightarrow> event list \<times> 'j outcome" where
  "generate_questions_groq post loads uniform retries =
     groq_loop post loads uniform [0..<nat retries]"

text \<open>
  The \<open>try\<close> block of \<open>safe_evaluate_chunk\<close> at attempt \<open>k\<close>: the metrics, if
  neither \<open>evaluate_chunk\<close> nor \<open>json.loads\<close> raises (the handler catches every
  exception). \<open>evaluate_chunk k\<close> is the response text of the call of attempt \<open>k\<close>,
  if the call does not raise.
\<close>

definition try_evaluate :: "(nat \<Rightarrow> string option) \<Rightarrow> (string \<Rightarrow> 'j loads_result) \<Rightarrow> nat \<Rightarrow> 'j option" where
  "try_evaluate evaluate_chunk loads k =
     (case evaluate_chunk k of
        None \<Rightarrow> None
      | Some llm_response \<Rightarrow>
         (case loads llm_response of
            Parsed metrics \<Rightarrow> Some metrics
          | JSONDecodeError \<Rightarrow> None
          | LoadsRaised \<Rightarrow> None))"

text \<open>The loop \<open>for attempt in range(1, retries + 1)\<close> of \<open>safe_evaluate_chunk\<close>.\<close>

fun eval_loop :: "(nat \<Rightarrow> string option) \<Rightarrow> (string \<Rightarrow> 'j loads_result) \<Rightarrow> (nat \<Rightarrow> real) \<Rightarrow> int \<Rightarrow> real \<Rightarrow> nat list \<Rightarrow> event list \<times> 'j outcome" where
  "eval_loop evaluate_chunk loads uniform retries delay [] = ([], ReturnedNone)"
| "eval_loop evaluate_chunk loads uniform retries delay (attempt # rest) =
     (case try_evaluate evaluate_chunk loads attempt of
        Some metrics \<Rightarrow> ([Call attempt], Returned metrics)
      | None \<Rightarrow>
          if int attempt = retries then ([Call attempt], Reraised)
          else then_events [Call attempt, Sleep (delay * 2 ^ (attempt - 1) + uniform attempt)]
                 (eval_loop evaluate_chunk loads uniform retries delay rest))"

definition safe_evaluate_chunk :: "(nat \<Rightarrow> string option) \<Rightarrow> (string \<Rightarrow> 'j loads_result) \<Rightarrow> (nat \<Rightarrow> real) \<Rightarrow> int \<Rightarrow> real \<Rightarrow> event list \<times> 'j outcome" where
  "safe_evaluate_chunk evaluate_chunk loads uniform retries delay =
     eval_loop evaluate_chunk loads uniform retries delay [1..<nat (retries + 1)]"

text \<open>
  The failures of an attempt. In \<open>generate_questions_groq\<close> a failure is retried when
  it reaches a sleep and the next turn of the loop: the request raises, the status is not
  200, the content cannot be extracted from the reply, or \<open>json.loads\<close> raises an
  exception other than \<open>JSONDecodeError\<close> on the content. A reply is malformed when it
  has status 200 and \<open>json.loads\<close> raises \<open>JSONDecodeError\<close> on its content, and
  the repair of appending a closing bracket does not give a value either. In
  \<open>safe_evaluate_chunk\<close> an attempt fails when the \<open>try\<close> block raises.
\<close>

definition groq_retried_failure :: "(nat \<Rightarrow> http_reply) \<Rightarrow> (string \<Rightarrow> 'j loads_result) \<Rightarrow> nat \<Rightarrow> bool" where
  "groq_retried_failure post loads k =
     (case post k of
        PostRaised \<Rightarrow> True
      | Response status_code message \<Rightarrow>
          status_code \<noteq> 200 \<or>
          (case message of
             None \<Rightarrow> True
           | Some content \<Rightarrow> loads content = LoadsRaised))"

definition groq_malformed :: "(nat \<Rightarrow> http_reply) \<Rightarrow> (string \<Rightarrow> 'j loads_result) \<Rightarrow> nat \<Rightarrow> bool" where
  "groq_malformed post loads k =
     (case post k of
        PostRaised \<Rightarrow> False
      | Response status_code message \<Rightarrow>
          status_code = 200 \<and>
          (case message of
             None \<Rightarrow> False
           | Some content \<Rightarrow>
               loads content = JSONDecodeError \<and>
               (case loads (str_strip content @ '']'') of
                  Parsed v \<Rightarrow> \<not> endswith (str_strip content) ''}''
                | JSONDecodeError \<Rightarrow> True
                | LoadsRaised \<Rightarrow> True)))"

definition eval_failure :: "(nat \<Rightarrow> string option) \<Rightarrow> (string \<Rightarrow> 'j loads_result) \<Rightarrow> nat \<Rightarrow> bool" where
  "eval_failure evaluate_chunk loads k = (try_evaluate evaluate_chunk loads k = None)"

text \<open>The events of failed attempts that are retried: the call, then the sleep.\<close>

definition groq_backoff :: "(nat \<Rightarrow> real) \<Rightarrow> nat list \<Rightarrow> event list" where
  "groq_backoff uniform ks = concat (map (\<lambda>k. [Call k, Sleep (2 ^ k + uniform k)]) ks)"

definition eval_backoff :: "(nat \<Rightarrow> real) \<Rightarrow> real \<Rightarrow> nat list \<Rightarrow> event list" where
  "eval_backoff uniform delay ks =
     concat (map (\<lambda>k. [Call k, Sleep (delay * 2 ^ (k - 1) + uniform k)]) ks)"

text \<open>
  Stand-ins for the examples: a parser that accepts the text \<open>{}\<close> and rejects
  \<open>not json\<close>, as \<open>json.loads\<close> does; services that time out, reject with status 429,
  answer with text that is not JSON, or always fail; and a constant random number.
\<close>

definition example_loads :: "string \<Rightarrow> string loads_result" where
  "example_loads s = (if s = ''{}'' then Parsed ''{}'' else JSONDecodeError)"

definition example_post :: "nat \<Rightarrow> http_reply" where
  "example_post k =
     (if k = 0 then PostRaised
      else if k = 1 then Response 429 None
      else Response 200 (Some ''not json''))"

definition malformed_post :: "nat \<Rightarrow> http_reply" where
  "malformed_post k = Response 200 (Some ''not json'')"

definition example_evaluate_chunk :: "nat \<Rightarrow> string option" where
  "example_evaluate_chunk k =
     (if k = 1 then None else if k = 2 then Some ''not json'' else Some ''{}'')"

definition example_uniform :: "nat \<Rightarrow> real" where
  "example_uniform k = 1"

definition failing_post :: "nat \<Rightarrow> http_reply" where
  "failing_post k = PostRaised"

definition failing_evaluate_chunk :: "nat \<Rightarrow> string option" where
  "failing_evaluate_chunk k = None"

section \<open>Properties of the deduplication loop\<close>

lemma dedup_step_seen:
  "dedup_step tsr st r = Inr st' \<Longrightarrow>
   \<exists>k. exact_key r = Some k \<and> seen_exact st' = insert k (seen_exact st)"
  unfolding dedup_step_def exact_key_def Let_def
  by (auto split: option.splits pyval.splits if_splits sum.splits)

lemma dedup_step_exact:
  "exact_key r = Some k \<Longrightarrow> k \<in> seen_exact st \<Longrightarrow> dedup_step tsr st r = Inr st"
  unfolding dedup_step_def exact_key_def Let_def
  by (auto split: option.splits pyval.splits)

lemma dedup_loop_append:
  "dedup_loop tsr (xs @ ys) st =
     (case dedup_loop tsr xs st of Inl e \<Rightarrow> Inl e | Inr st1 \<Rightarrow> dedup_loop tsr ys st1)"
  by (induction xs arbitrary: st) (auto split: sum.splits)

text \<open>A step that returns took one of three branches: exact duplicate, fuzzy duplicate,
  accepted.\<close>

lemma dedup_step_cases:
  assumes "dedup_step tsr st r = Inr st'"
  shows "\<exists>k q. exact_key r = Some k \<and> r ''Question'' = Some (Str q) \<and>
     ((k \<in> seen_exact st \<and> st' = st) \<or>
      (k \<notin> seen_exact st \<and> any_fuzzy tsr (str_strip q) (unique_pairs st) = Inr True \<and>
         st' = st\<lparr>seen_exact := insert k (seen_exact st)\<rparr>) \<or>
      (k \<notin> seen_exact st \<and> any_fuzzy tsr (str_strip q) (unique_pairs st) = Inr False \<and>
         st' = st\<lparr>seen_exact := insert k (seen_exact st),
                   unique_pairs := unique_pairs st @ [r]\<rparr>))"
proof -
  from assms obtain q a where q: "r ''Question'' = Some (Str q)" and a: "r ''Answer'' = Some (Str a)"
    unfolding dedup_step_def by (auto split: option.splits pyval.splits)
  let ?k = "(str_lower (str_strip q), str_lower (str_strip a))"
  have k: "exact_key r = Some ?k" by (simp add: exact_key_def q a)
  show ?thesis
  proof (cases "?k \<in> seen_exact st")
    case True
    with assms q a have "st' = st" by (simp add: dedup_step_def)
    with True k q show ?thesis by blast
  next
    case False
    show ?thesis
    proof (cases "any_fuzzy tsr (str_strip q) (unique_pairs st)")
      case (Inl e)
      with assms q a False show ?thesis by (simp add: dedup_step_def)
    next
      case (Inr b)
      with assms q a False k show ?thesis
        by (cases b) (simp_all add: dedup_step_def)
    qed
  qed
qed

lemma dedup_step_accept:
  assumes "exact_key r = Some k" "k \<notin> seen_exact st" "r ''Question'' = Some (Str q)"
    "any_fuzzy tsr (str_strip q) (unique_pairs st) = Inr False"
  shows "dedup_step tsr st r =
    Inr (st\<lparr>seen_exact := insert k (seen_exact st), unique_pairs := unique_pairs st @ [r]\<rparr>)"
proof -
  from assms(1) obtain a where a: "r ''Answer'' = Some (Str a)"
    by (auto simp: exact_key_def split: option.splits pyval.splits)
  with assms(1,3) have k: "k = (str_lower (str_strip q), str_lower (str_strip a))"
    by (simp add: exact_key_def)
  show ?thesis using assms(2,3,4) a unfolding k
    by (simp add: dedup_step_def)
qed

lemma dedup_step_fuzzy:
  assumes "exact_key r = Some k" "k \<notin> seen_exact st" "r ''Question'' = Some (Str q)"
    "any_fuzzy tsr (str_strip q) (unique_pairs st) = Inr True"
  shows "dedup_step tsr st r = Inr (st\<lparr>seen_exact := insert k (seen_exact st)\<rparr>)"
proof -
  from assms(1) obtain a where a: "r ''Answer'' = Some (Str a)"
    by (auto simp: exact_key_def split: option.splits pyval.splits)
  with assms(1,3) have k: "k = (str_lower (str_strip q), str_lower (str_strip a))"
    by (simp add: exact_key_def)
  show ?thesis using assms(2,3,4) a unfolding k
    by (simp add: dedup_step_def)
qed

lemmas dedup_eval = deduplicate_def dedup_step_def init_state_def qa_def str_strip_def
  is_space_def str_lower_def lower_char_def equal_ratio_def is_fuzzy_duplicate_def
  fuzzy_match_threshold_def

subsection \<open>Running the loop again on its own output\<close>

text \<open>
  The records a run accepts are appended to \<open>unique_pairs\<close>; a second run over exactly
  these records, from a state with the same accepted list and no more keys seen, accepts
  them all.
\<close>

lemma dedup_loop_rerun:
  "dedup_loop tsr xs st = Inr st' \<Longrightarrow>
   \<exists>ys. unique_pairs st' = unique_pairs st @ ys \<and>
     (\<forall>st2. unique_pairs st2 = unique_pairs st \<and> seen_exact st2 \<subseteq> seen_exact st \<longrightarrow>
        (\<exists>st2'. dedup_loop tsr ys st2 = Inr st2' \<and> unique_pairs st2' = unique_pairs st2 @ ys))"
proof (induction xs arbitrary: st)
  case Nil
  then show ?case by simp
next
  case (Cons r rest)
  from Cons.prems obtain st1 where s1: "dedup_step tsr st r = Inr st1"
    and l1: "dedup_loop tsr rest st1 = Inr st'"
    by (auto split: sum.splits)
  from Cons.IH[OF l1] obtain ys where ys: "unique_pairs st' = unique_pairs st1 @ ys"
    and re: "\<And>st2. unique_pairs st2 = unique_pairs st1 \<Longrightarrow> seen_exact st2 \<subseteq> seen_exact st1 \<Longrightarrow>
        (\<exists>st2'. dedup_loop tsr ys st2 = Inr st2' \<and> unique_pairs st2' = unique_pairs st2 @ ys)"
    by blast
  from dedup_step_cases[OF s1] obtain k q where k: "exact_key r = Some k"
    and q: "r ''Question'' = Some (Str q)"
    and c: "(k \<in> seen_exact st \<and> st1 = st) \<or>
      (k \<notin> seen_exact st \<and> any_fuzzy tsr (str_strip q) (unique_pairs st) = Inr True \<and>
         st1 = st\<lparr>seen_exact := insert k (seen_exact st)\<rparr>) \<or>
      (k \<notin> seen_exact st \<and> any_fuzzy tsr (str_strip q) (unique_pairs st) = Inr False \<and>
         st1 = st\<lparr>seen_exact := insert k (seen_exact st),
                   unique_pairs := unique_pairs st @ [r]\<rparr>)"
    by blast
  from c consider (exact) "k \<in> seen_exact st" "st1 = st"
    | (fuzzy) "k \<notin> seen_exact st" "st1 = st\<lparr>seen_exact := insert k (seen_exact st)\<rparr>"
    | (accept) "k \<notin> seen_exact st" "any_fuzzy tsr (str_strip q) (unique_pairs st) = Inr False"
        "st1 = st\<lparr>seen_exact := insert k (seen_exact st),
                   unique_pairs := unique_pairs st @ [r]\<rparr>"
    by blast
  then show ?case
  proof cases
    case exact
    with ys re show ?thesis by blast
  next
    case fuzzy
    have u1: "unique_pairs st1 = unique_pairs st" and s1': "seen_exact st \<subseteq> seen_exact st1"
      using fuzzy by auto
    have "\<exists>st2'. dedup_loop tsr ys st2 = Inr st2' \<and> unique_pairs st2' = unique_pairs st2 @ ys"
      if "unique_pairs st2 = unique_pairs st" "seen_exact st2 \<subseteq> seen_exact st" for st2
      using re[of st2] that u1 s1' by auto
    with ys u1 show ?thesis by auto
  next
    case accept
    have u1: "unique_pairs st1 = unique_pairs st @ [r]"
      and s1': "seen_exact st1 = insert k (seen_exact st)"
      using accept by auto
    have "\<exists>st2'. dedup_loop tsr (r # ys) st2 = Inr st2' \<and>
            unique_pairs st2' = unique_pairs st2 @ r # ys"
      if u: "unique_pairs st2 = unique_pairs st" and s: "seen_exact st2 \<subseteq> seen_exact st" for st2
    proof -
      let ?st3 = "st2\<lparr>seen_exact := insert k (seen_exact st2),
                      unique_pairs := unique_pairs st2 @ [r]\<rparr>"
      have k2: "k \<notin> seen_exact st2" using s accept(1) by auto
      have f2: "any_fuzzy tsr (str_strip q) (unique_pairs st2) = Inr False"
        using accept(2) u by simp
      have st: "dedup_step tsr st2 r = Inr ?st3"
        by (rule dedup_step_accept[OF k k2 q f2])
      have "unique_pairs ?st3 = unique_pairs st1" using u u1 by simp
      moreover have "seen_exact ?st3 \<subseteq> seen_exact st1" using s s1' by auto
      ultimately obtain st2' where "dedup_loop tsr ys ?st3 = Inr st2'"
        "unique_pairs st2' = unique_pairs ?st3 @ ys"
        using re[of ?st3] by blast
      with st show ?thesis by simp
    qed
    moreover have "unique_pairs st' = unique_pairs st @ r # ys"
      using ys u1 by simp
    ultimately show ?thesis by blast
  qed
qed

lemma dedup_loop_extends:
  "dedup_loop tsr xs st = Inr st' \<Longrightarrow> \<exists>ys. unique_pairs st' = unique_pairs st @ ys"
  using dedup_loop_rerun[of tsr xs st st'] by blast

lemma deduplicate_rerun: "deduplicate tsr x = Inr y \<Longrightarrow> deduplicate tsr y = Inr y"
proof -
  assume a: "deduplicate tsr x = Inr y"
  then obtain st where st: "dedup_loop tsr x init_state = Inr st" "y = unique_pairs st"
    by (auto simp: deduplicate_def split: sum.splits)
  from dedup_loop_rerun[OF st(1)] obtain ys where
    ys: "unique_pairs st = unique_pairs init_state @ ys"
    and re: "\<And>st2. unique_pairs st2 = unique_pairs init_state \<Longrightarrow>
        seen_exact st2 \<subseteq> seen_exact init_state \<Longrightarrow>
        (\<exists>st2'. dedup_loop tsr ys st2 = Inr st2' \<and> unique_pairs st2' = unique_pairs st2 @ ys)"
    by blast
  have "ys = y" using ys st by (simp add: init_state_def)
  with re[of init_state] show ?thesis
    by (auto simp: deduplicate_def init_state_def)
qed

text \<open>
  Claim C7. \<open>deduplicate\<close> is idempotent: \<open>deduplicate(deduplicate(x))\<close> equals
  \<open>deduplicate(x)\<close> for every list of QA records \<open>x\<close>. The composition is taken
  in the code's own sense: where \<open>deduplicate(x)\<close> raises, so does the composition, with
  the same error; where it returns \<open>y\<close>, \<open>deduplicate(y)\<close> returns \<open>y\<close>.
\<close>

theorem deduplicate_idempotent:
  "(case deduplicate tsr x of Inl e \<Rightarrow> Inl e | Inr y \<Rightarrow> deduplicate tsr y) = deduplicate tsr x"
  by (cases "deduplicate tsr x") (simp_all add: deduplicate_rerun)

theorem deduplicate_idempotent_witness:
  "deduplicate equal_ratio
     [qa ''What is AC?'' ''Alternating current.'', qa ''What is AC?'' ''Current that alternates.'']
     = Inr [qa ''What is AC?'' ''Alternating current.'']
   \<and> deduplicate equal_ratio [qa ''What is AC?'' ''Alternating current.'']
     = Inr [qa ''What is AC?'' ''Alternating current.'']"
proof -
  have e: "deduplicate equal_ratio
     [qa ''What is AC?'' ''Alternating current.'', qa ''What is AC?'' ''Current that alternates.'']
     = Inr [qa ''What is AC?'' ''Alternating current.'']"
    by (simp add: dedup_eval)
  from deduplicate_idempotent[of equal_ratio
     "[qa ''What is AC?'' ''Alternating current.'', qa ''What is AC?'' ''Current that alternates.'']"]
  show ?thesis unfolding e by simp
qed

subsection \<open>Records with a missing field\<close>

lemma any_fuzzy_total:
  "\<forall>u\<in>set us. \<exists>s. u ''Question'' = Some (Str s) \<Longrightarrow> \<exists>b. any_fuzzy tsr q us = Inr b"
  by (induction us) auto

lemma any_fuzzy_True:
  "any_fuzzy tsr q us = Inr True \<Longrightarrow>
   \<exists>u\<in>set us. \<exists>uq. u ''Question'' = Some (Str uq) \<and>
      is_fuzzy_duplicate tsr q uq fuzzy_match_threshold"
  by (induction us) (auto split: option.splits pyval.splits if_splits)

lemma field_error_None:
  "field_error r = None \<Longrightarrow> \<exists>q a. r ''Question'' = Some (Str q) \<and> r ''Answer'' = Some (Str a)"
  by (auto simp: field_error_def split: option.splits pyval.splits)

lemma dedup_step_total:
  assumes "field_error r = None"
    and "\<forall>u\<in>set (unique_pairs st). \<exists>s. u ''Question'' = Some (Str s)"
  shows "\<exists>st'. dedup_step tsr st r = Inr st' \<and>
           (\<forall>u\<in>set (unique_pairs st'). \<exists>s. u ''Question'' = Some (Str s))"
proof -
  from field_error_None[OF assms(1)] obtain q a
    where q: "r ''Question'' = Some (Str q)" and a: "r ''Answer'' = Some (Str a)"
    by blast
  from any_fuzzy_total[OF assms(2)] obtain b
    where b: "any_fuzzy tsr (str_strip q) (unique_pairs st) = Inr b" by blast
  show ?thesis using q a b assms(2)
    by (cases b) (auto simp: dedup_step_def Let_def)
qed

lemma dedup_step_error:
  "field_error r = Some e \<Longrightarrow> dedup_step tsr st r = Inl e"
  by (auto simp: field_error_def dedup_step_def split: option.splits pyval.splits)

lemma dedup_loop_total:
  assumes "\<forall>r\<in>set pairs. field_error r = None"
    and "\<forall>u\<in>set (unique_pairs st). \<exists>s. u ''Question'' = Some (Str s)"
  shows "\<exists>st'. dedup_loop tsr pairs st = Inr st' \<and>
           (\<forall>u\<in>set (unique_pairs st'). \<exists>s. u ''Question'' = Some (Str s))"
  using assms
proof (induction pairs arbitrary: st)
  case Nil
  then show ?case by simp
next
  case (Cons r rest)
  from dedup_step_total[of r st tsr] Cons.prems obtain st1
    where s: "dedup_step tsr st r = Inr st1"
      and i: "\<forall>u\<in>set (unique_pairs st1). \<exists>s. u ''Question'' = Some (Str s)"
    by auto
  from Cons.IH[OF _ i] Cons.prems(1) obtain st'
    where "dedup_loop tsr rest st1 = Inr st'"
      and "\<forall>u\<in>set (unique_pairs st'). \<exists>s. u ''Question'' = Some (Str s)"
    by auto
  with s show ?case by simp
qed

lemma dedup_loop_first_error:
  assumes "\<forall>p\<in>set pre. field_error p = None" and "field_error r = Some e"
    and "\<forall>u\<in>set (unique_pairs st). \<exists>s. u ''Question'' = Some (Str s)"
  shows "dedup_loop tsr (pre @ r # post) st = Inl e"
proof -
  from dedup_loop_total[OF assms(1,3)] obtain st1
    where l: "dedup_loop tsr pre st = Inr st1" by blast
  from dedup_step_error[OF assms(2)] have "dedup_step tsr st1 r = Inl e" .
  with l show ?thesis by (simp add: dedup_loop_append)
qed

text \<open>
  Claim C8, as the code has it. \<open>deduplicate\<close> reads both fields by subscript and
  calls \<open>.strip()\<close> on the value, with no default. It returns a list when every input
  record holds a string in both the Question and the Answer field. A missing field is not
  treated as the empty string: the first record, in input order, that has a field absent
  or holding \<open>None\<close> makes \<open>deduplicate\<close> raise, with the Question read before the
  Answer: KeyError for that field where it is absent, AttributeError where it holds
  \<open>None\<close>.
\<close>

theorem deduplicate_raises_on_missing_field:
  "((\<forall>r\<in>set pairs. \<exists>q a. r ''Question'' = Some (Str q) \<and> r ''Answer'' = Some (Str a)) \<longrightarrow>
      (\<exists>out. deduplicate tsr pairs = Inr out))
   \<and> ((\<forall>p\<in>set pre. \<exists>q a. p ''Question'' = Some (Str q) \<and> p ''Answer'' = Some (Str a)) \<longrightarrow>
      (r ''Question'' = None \<longrightarrow>
         deduplicate tsr (pre @ r # post) = Inl (KeyError ''Question'')) \<and>
      (r ''Question'' = Some PyNone \<longrightarrow>
         deduplicate tsr (pre @ r # post) = Inl AttributeError) \<and>
      ((\<exists>q. r ''Question'' = Some (Str q)) \<and> r ''Answer'' = None \<longrightarrow>
         deduplicate tsr (pre @ r # post) = Inl (KeyError ''Answer'')) \<and>
      ((\<exists>q. r ''Question'' = Some (Str q)) \<and> r ''Answer'' = Some PyNone \<longrightarrow>
         deduplicate tsr (pre @ r # post) = Inl AttributeError))"
proof -
  have i: "\<forall>u\<in>set (unique_pairs init_state). \<exists>s. u ''Question'' = Some (Str s)"
    by (simp add: init_state_def)
  have ok: "field_error x = None"
    if "\<exists>q a. x ''Question'' = Some (Str q) \<and> x ''Answer'' = Some (Str a)" for x
  proof -
    from that obtain q a where "x ''Question'' = Some (Str q)" "x ''Answer'' = Some (Str a)"
      by blast
    then show ?thesis by (simp add: field_error_def)
  qed
  have total: "\<exists>out. deduplicate tsr pairs = Inr out"
    if t: "\<forall>r\<in>set pairs. \<exists>q a. r ''Question'' = Some (Str q) \<and> r ''Answer'' = Some (Str a)"
  proof -
    have "\<forall>r\<in>set pairs. field_error r = None"
    proof
      fix x assume "x \<in> set pairs"
      with t show "field_error x = None" by (intro ok) blast
    qed
    from dedup_loop_total[OF this i, of tsr] obtain st'
      where "dedup_loop tsr pairs init_state = Inr st'" by blast
    then show ?thesis by (simp add: deduplicate_def)
  qed
  have err: "deduplicate tsr (pre @ r # post) = Inl e"
    if t: "\<forall>p\<in>set pre. \<exists>q a. p ''Question'' = Some (Str q) \<and> p ''Answer'' = Some (Str a)"
      and e: "field_error r = Some e" for e
  proof -
    have "\<forall>p\<in>set pre. field_error p = None"
    proof
      fix x assume "x \<in> set pre"
      with t show "field_error x = None" by (intro ok) blast
    qed
    from dedup_loop_first_error[OF this e i, of tsr post] show ?thesis
      by (simp add: deduplicate_def)
  qed
  have f1: "field_error r = Some (KeyError ''Question'')" if "r ''Question'' = None"
    using that by (simp add: field_error_def)
  have f2: "field_error r = Some AttributeError" if "r ''Question'' = Some PyNone"
    using that by (simp add: field_error_def)
  have f3: "field_error r = Some (KeyError ''Answer'')"
    if "(\<exists>q. r ''Question'' = Some (Str q)) \<and> r ''Answer'' = None"
  proof -
    from that obtain q where "r ''Question'' = Some (Str q)" "r ''Answer'' = None" by blast
    then show ?thesis by (simp add: field_error_def)
  qed
  have f4: "field_error r = Some AttributeError"
    if "(\<exists>q. r ''Question'' = Some (Str q)) \<and> r ''Answer'' = Some PyNone"
  proof -
    from that obtain q where "r ''Question'' = Some (Str q)" "r ''Answer'' = Some PyNone"
      by blast
    then show ?thesis by (simp add: field_error_def)
  qed
  show ?thesis
  proof (intro conjI impI)
    assume "\<forall>r\<in>set pairs. \<exists>q a. r ''Question'' = Some (Str q) \<and> r ''Answer'' = Some (Str a)"
    then show "\<exists>out. deduplicate tsr pairs = Inr out" by (rule total)
  next
    assume t: "\<forall>p\<in>set pre. \<exists>q a. p ''Question'' = Some (Str q) \<and> p ''Answer'' = Some (Str a)"
      and "r ''Question'' = None"
    then show "deduplicate tsr (pre @ r # post) = Inl (KeyError ''Question'')"
      by (intro err f1)
  next
    assume t: "\<forall>p\<in>set pre. \<exists>q a. p ''Question'' = Some (Str q) \<and> p ''Answer'' = Some (Str a)"
      and "r ''Question'' = Some PyNone"
    then show "deduplicate tsr (pre @ r # post) = Inl AttributeError"
      by (intro err f2)
  next
    assume t: "\<forall>p\<in>set pre. \<exists>q a. p ''Question'' = Some (Str q) \<and> p ''Answer'' = Some (Str a)"
      and "(\<exists>q. r ''Question'' = Some (Str q)) \<and> r ''Answer'' = None"
    then show "deduplicate tsr (pre @ r # post) = Inl (KeyError ''Answer'')"
      by (intro err f3)
  next
    assume t: "\<forall>p\<in>set pre. \<exists>q a. p ''Question'' = Some (Str q) \<and> p ''Answer'' = Some (Str a)"
      and "(\<exists>q. r ''Question'' = Some (Str q)) \<and> r ''Answer'' = Some PyNone"
    then show "deduplicate tsr (pre @ r # post) = Inl AttributeError"
      by (intro err f4)
  qed
qed

theorem deduplicate_raises_on_missing_field_witness:
  "(\<exists>out. deduplicate equal_ratio [qa ''What is AC?'' ''Alternating current.''] = Inr out)
   \<and> deduplicate equal_ratio
        ([qa ''What is AC?'' ''Alternating current.''] @ [''Answer'' \<mapsto> Str ''Direct current.''] # [])
      = Inl (KeyError ''Question'')
   \<and> deduplicate equal_ratio
        ([qa ''What is AC?'' ''Alternating current.'']
           @ [''Question'' \<mapsto> PyNone, ''Answer'' \<mapsto> Str ''Direct current.''] # [])
      = Inl AttributeError
   \<and> deduplicate equal_ratio
        ([qa ''What is AC?'' ''Alternating current.''] @ [''Question'' \<mapsto> Str ''What is DC?''] # [])
      = Inl (KeyError ''Answer'')
   \<and> deduplicate equal_ratio
        ([qa ''What is AC?'' ''Alternating current.'']
           @ [''Question'' \<mapsto> Str ''What is DC?'', ''Answer'' \<mapsto> PyNone] # [])
      = Inl AttributeError"
proof -
  have h: "\<forall>r\<in>set [qa ''What is AC?'' ''Alternating current.''].
      \<exists>q a. r ''Question'' = Some (Str q) \<and> r ''Answer'' = Some (Str a)"
    by (simp add: qa_def)
  have a: "\<exists>out. deduplicate equal_ratio [qa ''What is AC?'' ''Alternating current.''] = Inr out"
    using deduplicate_raises_on_missing_field
      [of "[qa ''What is AC?'' ''Alternating current.'']" equal_ratio] h
    by blast
  have b: "deduplicate equal_ratio
        ([qa ''What is AC?'' ''Alternating current.''] @ [''Answer'' \<mapsto> Str ''Direct current.''] # [])
      = Inl (KeyError ''Question'')"
    using deduplicate_raises_on_missing_field
      [of _ equal_ratio "[qa ''What is AC?'' ''Alternating current.'']"
          "[''Answer'' \<mapsto> Str ''Direct current.'']" "[]"] h
    by simp
  have c: "deduplicate equal_ratio
        ([qa ''What is AC?'' ''Alternating current.'']
           @ [''Question'' \<mapsto> PyNone, ''Answer'' \<mapsto> Str ''Direct current.''] # [])
      = Inl AttributeError"
    using deduplicate_raises_on_missing_field
      [of _ equal_ratio "[qa ''What is AC?'' ''Alternating current.'']"
          "[''Question'' \<mapsto> PyNone, ''Answer'' \<mapsto> Str ''Direct current.'']" "[]"] h
    by simp
  have d: "deduplicate equal_ratio
        ([qa ''What is AC?'' ''Alternating current.''] @ [''Question'' \<mapsto> Str ''What is DC?''] # [])
      = Inl (KeyError ''Answer'')"
    using deduplicate_raises_on_missing_field
      [of _ equal_ratio "[qa ''What is AC?'' ''Alternating current.'']"
          "[''Question'' \<mapsto> Str ''What is DC?'']" "[]"] h
    by simp
  have e: "deduplicate equal_ratio
        ([qa ''What is AC?'' ''Alternating current.'']
           @ [''Question'' \<mapsto> Str ''What is DC?'', ''Answer'' \<mapsto> PyNone] # [])
      = Inl AttributeError"
    using deduplicate_raises_on_missing_field
      [of _ equal_ratio "[qa ''What is AC?'' ''Alternating current.'']"
          "[''Question'' \<mapsto> Str ''What is DC?'', ''Answer'' \<mapsto> PyNone]" "[]"] h
    by simp
  from a b c d e show ?thesis by blast
qed

text \<open>
  The claim as stated fails: a record with a Question and no Answer field makes
  \<open>deduplicate\<close> raise KeyError, and so does a record with an Answer and no Question
  field; neither is treated as the empty string.
\<close>

theorem deduplicate_missing_answer_counterexample:
  "deduplicate equal_ratio [[''Question'' \<mapsto> Str ''What is AC?'']] = Inl (KeyError ''Answer'')
   \<and> deduplicate equal_ratio [[''Answer'' \<mapsto> Str ''Alternating current.'']]
       = Inl (KeyError ''Question'')"
  by (simp add: dedup_eval)

subsection \<open>When the exact key is registered\<close>

lemma dedup_loop_seen:
  "dedup_loop tsr pairs st = Inr st' \<Longrightarrow>
   seen_exact st' = seen_exact st \<union> {k. \<exists>r\<in>set pairs. exact_key r = Some k}"
proof (induction pairs arbitrary: st)
  case Nil
  then show ?case by simp
next
  case (Cons r rest)
  from Cons.prems obtain st1 where s1: "dedup_step tsr st r = Inr st1"
    and l1: "dedup_loop tsr rest st1 = Inr st'"
    by (auto split: sum.splits)
  from dedup_step_seen[OF s1] obtain k where k: "exact_key r = Some k"
    "seen_exact st1 = insert k (seen_exact st)" by blast
  from Cons.IH[OF l1] k show ?case by auto
qed

lemma dedup_loop_keys:
  "dedup_loop tsr pairs st = Inr st' \<Longrightarrow> r \<in> set pairs \<Longrightarrow> \<exists>k. exact_key r = Some k"
proof (induction pairs arbitrary: st)
  case Nil
  then show ?case by simp
next
  case (Cons x rest)
  from Cons.prems(1) obtain st1 where s1: "dedup_step tsr st x = Inr st1"
    and l1: "dedup_loop tsr rest st1 = Inr st'"
    by (auto split: sum.splits)
  show ?case
  proof (cases "r = x")
    case True
    with dedup_step_seen[OF s1] show ?thesis by blast
  next
    case False
    with Cons.prems(2) have "r \<in> set rest" by simp
    from Cons.IH[OF l1 this] show ?thesis .
  qed
qed

lemma qa_answer_neq: "a \<noteq> a' \<Longrightarrow> qa q a \<noteq> qa q' a'"
proof
  assume n: "a \<noteq> a'" and e: "qa q a = qa q' a'"
  from e have "qa q a ''Answer'' = qa q' a' ''Answer''" by simp
  with n show False by (simp add: qa_def)
qed

text \<open>
  Claim C1, as the code has it. In \<open>deduplicate\<close> the exact key of a record is added to
  \<open>seen_exact\<close> as soon as the record has passed the exact-duplicate check, before the
  fuzzy check and whether or not the record is then accepted. So after the loop has run
  over any records without raising, \<open>seen_exact\<close> holds the exact key of every one of
  them, and a further record whose exact key equals the key of any of them, accepted or
  dropped as a fuzzy duplicate, is dropped by the exact-duplicate check: the step leaves
  the state as it is.
\<close>

theorem exact_key_registered_before_fuzzy_check:
  "dedup_loop tsr pairs st = Inr st' \<Longrightarrow>
   seen_exact st' = seen_exact st \<union> {k. \<exists>r\<in>set pairs. exact_key r = Some k} \<and>
   (\<forall>r\<in>set pairs. \<forall>c. exact_key c = exact_key r \<longrightarrow>
      (\<exists>k. exact_key c = Some k \<and> k \<in> seen_exact st') \<and> dedup_step tsr st' c = Inr st')"
proof -
  assume l: "dedup_loop tsr pairs st = Inr st'"
  have s: "seen_exact st' = seen_exact st \<union> {k. \<exists>r\<in>set pairs. exact_key r = Some k}"
    by (rule dedup_loop_seen[OF l])
  have "(\<exists>k. exact_key c = Some k \<and> k \<in> seen_exact st') \<and> dedup_step tsr st' c = Inr st'"
    if r: "r \<in> set pairs" and c: "exact_key c = exact_key r" for r c
  proof -
    from dedup_loop_keys[OF l r] obtain k where k: "exact_key r = Some k" by blast
    with s r have m: "k \<in> seen_exact st'" by auto
    from c k have ck: "exact_key c = Some k" by simp
    from dedup_step_exact[OF ck m] ck m show ?thesis by blast
  qed
  with s show ?thesis by blast
qed

theorem exact_key_registered_before_fuzzy_check_witness:
  "dedup_loop equal_ratio [qa ''What is AC?'' ''One.'', qa ''What is AC?'' ''Two.''] init_state
     = Inr \<lparr>seen_exact = {(''what is ac?'', ''two.''), (''what is ac?'', ''one.'')},
            unique_pairs = [qa ''What is AC?'' ''One.'']\<rparr>
   \<and> qa ''What is AC?'' ''Two.'' \<in> set [qa ''What is AC?'' ''One.'', qa ''What is AC?'' ''Two.'']
   \<and> dedup_step equal_ratio
        \<lparr>seen_exact = {(''what is ac?'', ''two.''), (''what is ac?'', ''one.'')},
         unique_pairs = [qa ''What is AC?'' ''One.'']\<rparr>
        (qa ''what is ac?'' ''TWO.'')
     = Inr \<lparr>seen_exact = {(''what is ac?'', ''two.''), (''what is ac?'', ''one.'')},
            unique_pairs = [qa ''What is AC?'' ''One.'']\<rparr>"
proof -
  have l: "dedup_loop equal_ratio [qa ''What is AC?'' ''One.'', qa ''What is AC?'' ''Two.''] init_state
     = Inr \<lparr>seen_exact = {(''what is ac?'', ''two.''), (''what is ac?'', ''one.'')},
            unique_pairs = [qa ''What is AC?'' ''One.'']\<rparr>"
    by (simp add: dedup_eval)
  have m: "qa ''What is AC?'' ''Two.'' \<in> set [qa ''What is AC?'' ''One.'', qa ''What is AC?'' ''Two.'']"
    by simp
  have c: "exact_key (qa ''what is ac?'' ''TWO.'') = exact_key (qa ''What is AC?'' ''Two.'')"
    by (simp add: exact_key_def dedup_eval)
  from exact_key_registered_before_fuzzy_check[OF l] m c
  have "dedup_step equal_ratio
        \<lparr>seen_exact = {(''what is ac?'', ''two.''), (''what is ac?'', ''one.'')},
         unique_pairs = [qa ''What is AC?'' ''One.'']\<rparr>
        (qa ''what is ac?'' ''TWO.'')
     = Inr \<lparr>seen_exact = {(''what is ac?'', ''two.''), (''what is ac?'', ''one.'')},
            unique_pairs = [qa ''What is AC?'' ''One.'']\<rparr>"
    by blast
  with l m show ?thesis by blast
qed

text \<open>
  The claim as stated fails. The second record below is dropped as a fuzzy duplicate of the
  first (same question, another answer) and is never accepted, yet its exact key is in
  \<open>seen_exact\<close> after the loop; the key differs from the key of the accepted record.
  A third record with that key meets the exact-duplicate check with its key already seen,
  and the loop leaves the state as it is.
\<close>

theorem key_of_fuzzy_dropped_record_counterexample:
  "dedup_loop equal_ratio [qa ''What is AC?'' ''One.'', qa ''What is AC?'' ''Two.''] init_state
     = Inr \<lparr>seen_exact = {(''what is ac?'', ''two.''), (''what is ac?'', ''one.'')},
            unique_pairs = [qa ''What is AC?'' ''One.'']\<rparr>
   \<and> qa ''What is AC?'' ''Two.'' \<notin> set [qa ''What is AC?'' ''One.'']
   \<and> exact_key (qa ''What is AC?'' ''Two.'') = Some (''what is ac?'', ''two.'')
   \<and> exact_key (qa ''What is AC?'' ''One.'') = Some (''what is ac?'', ''one.'')
   \<and> (''what is ac?'', ''two.'')
        \<in> seen_exact \<lparr>seen_exact = {(''what is ac?'', ''two.''), (''what is ac?'', ''one.'')},
                       unique_pairs = [qa ''What is AC?'' ''One.'']\<rparr>
   \<and> dedup_loop equal_ratio
        [qa ''What is AC?'' ''One.'', qa ''What is AC?'' ''Two.'', qa ''What is AC?'' ''Two.'']
        init_state
     = Inr \<lparr>seen_exact = {(''what is ac?'', ''two.''), (''what is ac?'', ''one.'')},
            unique_pairs = [qa ''What is AC?'' ''One.'']\<rparr>"
proof -
  have l: "dedup_loop equal_ratio [qa ''What is AC?'' ''One.'', qa ''What is AC?'' ''Two.''] init_state
     = Inr \<lparr>seen_exact = {(''what is ac?'', ''two.''), (''what is ac?'', ''one.'')},
            unique_pairs = [qa ''What is AC?'' ''One.'']\<rparr>"
    by (simp add: dedup_eval)
  have n: "qa ''What is AC?'' ''Two.'' \<notin> set [qa ''What is AC?'' ''One.'']"
    using qa_answer_neq[of "''Two.''" "''One.''"] by simp
  have k2: "exact_key (qa ''What is AC?'' ''Two.'') = Some (''what is ac?'', ''two.'')"
    by (simp add: exact_key_def dedup_eval)
  have k1: "exact_key (qa ''What is AC?'' ''One.'') = Some (''what is ac?'', ''one.'')"
    by (simp add: exact_key_def dedup_eval)
  have l3: "dedup_loop equal_ratio
        [qa ''What is AC?'' ''One.'', qa ''What is AC?'' ''Two.'', qa ''What is AC?'' ''Two.'']
        init_state
     = Inr \<lparr>seen_exact = {(''what is ac?'', ''two.''), (''what is ac?'', ''one.'')},
            unique_pairs = [qa ''What is AC?'' ''One.'']\<rparr>"
    by (simp add: dedup_eval)
  from l n k2 k1 l3 show ?thesis by simp
qed

subsection \<open>First occurrences\<close>

text \<open>
  Claim C6, as the code has it. For each distinct exact key, the earliest record with that
  key appears in the output of \<open>deduplicate\<close> unless its trimmed question is a fuzzy
  duplicate (score at least 90) of the question of a record accepted before it; the
  records accepted before it stay in the output.
\<close>

theorem first_occurrence_kept_unless_fuzzy_duplicate:
  assumes "deduplicate tsr (pre @ r # post) = Inr out"
    and "\<forall>p\<in>set pre. exact_key p \<noteq> exact_key r"
  shows "\<exists>kept q. deduplicate tsr pre = Inr kept \<and> r ''Question'' = Some (Str q) \<and>
      set kept \<subseteq> set out \<and>
      (r \<in> set out \<or>
       (\<exists>u\<in>set kept. \<exists>uq. u ''Question'' = Some (Str uq) \<and>
          is_fuzzy_duplicate tsr (str_strip q) uq fuzzy_match_threshold))"
proof -
  from assms(1) obtain st' where l: "dedup_loop tsr (pre @ r # post) init_state = Inr st'"
    and out: "out = unique_pairs st'"
    by (auto simp: deduplicate_def split: sum.splits)
  from l obtain st1 where l1: "dedup_loop tsr pre init_state = Inr st1"
    and l2: "dedup_loop tsr (r # post) st1 = Inr st'"
    by (auto simp: dedup_loop_append split: sum.splits)
  from l2 obtain st2 where s: "dedup_step tsr st1 r = Inr st2"
    and l3: "dedup_loop tsr post st2 = Inr st'"
    by (auto split: sum.splits)
  have kept: "deduplicate tsr pre = Inr (unique_pairs st1)"
    using l1 by (simp add: deduplicate_def)
  from dedup_loop_extends[OF l3] obtain ys where ys: "unique_pairs st' = unique_pairs st2 @ ys"
    by blast
  from dedup_loop_extends[OF l2] obtain zs where zs: "unique_pairs st' = unique_pairs st1 @ zs"
    by blast
  have sub: "set (unique_pairs st1) \<subseteq> set out" using zs out by auto
  from dedup_step_cases[OF s] obtain k q where k: "exact_key r = Some k"
    and q: "r ''Question'' = Some (Str q)"
    and c: "(k \<in> seen_exact st1 \<and> st2 = st1) \<or>
      (k \<notin> seen_exact st1 \<and> any_fuzzy tsr (str_strip q) (unique_pairs st1) = Inr True \<and>
         st2 = st1\<lparr>seen_exact := insert k (seen_exact st1)\<rparr>) \<or>
      (k \<notin> seen_exact st1 \<and> any_fuzzy tsr (str_strip q) (unique_pairs st1) = Inr False \<and>
         st2 = st1\<lparr>seen_exact := insert k (seen_exact st1),
                   unique_pairs := unique_pairs st1 @ [r]\<rparr>)"
    by blast
  have "seen_exact st1 = {k. \<exists>p\<in>set pre. exact_key p = Some k}"
    using dedup_loop_seen[OF l1] by (simp add: init_state_def)
  with assms(2) k have nk: "k \<notin> seen_exact st1" by auto
  from c nk consider
      (fuzzy) "any_fuzzy tsr (str_strip q) (unique_pairs st1) = Inr True"
    | (accept) "st2 = st1\<lparr>seen_exact := insert k (seen_exact st1),
                   unique_pairs := unique_pairs st1 @ [r]\<rparr>"
    by blast
  then have "r \<in> set out \<or>
       (\<exists>u\<in>set (unique_pairs st1). \<exists>uq. u ''Question'' = Some (Str uq) \<and>
          is_fuzzy_duplicate tsr (str_strip q) uq fuzzy_match_threshold)"
  proof cases
    case fuzzy
    from any_fuzzy_True[OF fuzzy] show ?thesis by blast
  next
    case accept
    then have "r \<in> set (unique_pairs st2)" by simp
    with ys out show ?thesis by simp
  qed
  with kept q sub show ?thesis by blast
qed

theorem first_occurrence_kept_unless_fuzzy_duplicate_witness:
  "deduplicate equal_ratio
     ([qa ''What is AC?'' ''One.''] @ qa ''How fast is DC charging?'' ''Up to 350 kW.'' # [])
     = Inr [qa ''What is AC?'' ''One.'', qa ''How fast is DC charging?'' ''Up to 350 kW.'']
   \<and> exact_key (qa ''What is AC?'' ''One.'')
       \<noteq> exact_key (qa ''How fast is DC charging?'' ''Up to 350 kW.'')
   \<and> (\<exists>kept q. deduplicate equal_ratio [qa ''What is AC?'' ''One.''] = Inr kept \<and>
        qa ''How fast is DC charging?'' ''Up to 350 kW.'' ''Question'' = Some (Str q) \<and>
        set kept \<subseteq> set [qa ''What is AC?'' ''One.'',
                              qa ''How fast is DC charging?'' ''Up to 350 kW.''] \<and>
        (qa ''How fast is DC charging?'' ''Up to 350 kW.''
           \<in> set [qa ''What is AC?'' ''One.'', qa ''How fast is DC charging?'' ''Up to 350 kW.''] \<or>
         (\<exists>u\<in>set kept. \<exists>uq. u ''Question'' = Some (Str uq) \<and>
            is_fuzzy_duplicate equal_ratio (str_strip q) uq fuzzy_match_threshold)))"
proof -
  have d: "deduplicate equal_ratio
     ([qa ''What is AC?'' ''One.''] @ qa ''How fast is DC charging?'' ''Up to 350 kW.'' # [])
     = Inr [qa ''What is AC?'' ''One.'', qa ''How fast is DC charging?'' ''Up to 350 kW.'']"
    by (simp add: dedup_eval)
  have n: "exact_key (qa ''What is AC?'' ''One.'')
       \<noteq> exact_key (qa ''How fast is DC charging?'' ''Up to 350 kW.'')"
    by (simp add: exact_key_def dedup_eval)
  then have h: "\<forall>p\<in>set [qa ''What is AC?'' ''One.'']. exact_key p
       \<noteq> exact_key (qa ''How fast is DC charging?'' ''Up to 350 kW.'')"
    by simp
  from first_occurrence_kept_unless_fuzzy_duplicate[OF d h] d n show ?thesis by blast
qed

text \<open>
  The claim as stated fails. The second record below is the earliest (and only) record with
  its exact key, and it is not in the output: the first record has the same question and
  another answer, so the second is dropped as a fuzzy duplicate.
\<close>

theorem first_occurrence_dropped_counterexample:
  "deduplicate equal_ratio [qa ''What is AC?'' ''One.'', qa ''What is AC?'' ''Two.'']
     = Inr [qa ''What is AC?'' ''One.'']
   \<and> exact_key (qa ''What is AC?'' ''Two.'') \<noteq> exact_key (qa ''What is AC?'' ''One.'')
   \<and> qa ''What is AC?'' ''Two.'' \<notin> set [qa ''What is AC?'' ''One.'']"
proof -
  have d: "deduplicate equal_ratio [qa ''What is AC?'' ''One.'', qa ''What is AC?'' ''Two.'']
     = Inr [qa ''What is AC?'' ''One.'']"
    by (simp add: dedup_eval)
  have k: "exact_key (qa ''What is AC?'' ''Two.'') \<noteq> exact_key (qa ''What is AC?'' ''One.'')"
    by (simp add: exact_key_def dedup_eval)
  have n: "qa ''What is AC?'' ''Two.'' \<notin> set [qa ''What is AC?'' ''One.'']"
    using qa_answer_neq[of "''Two.''" "''One.''"] by simp
  from d k n show ?thesis by simp
qed

section \<open>Properties of the sentence-based chunker\<close>

lemma split_acc_space:
  "is_space c \<Longrightarrow> split_acc (a @ c # b) w = split_acc a w @ split_acc b []"
  by (induction a arbitrary: w) auto


lemma str_split_join2:
  "length (str_split (x @ CHR 0x20 # y)) = length (str_split x) + length (str_split y)"
  by (simp add: str_split_def split_acc_space is_space_def)

lemma word_count_join:
  "word_count_of (str_join g) = sum_list (map word_count_of g)"
proof (induction g rule: str_join.induct)
  case 1
  then show ?case by (simp add: word_count_of_def str_split_def)
next
  case (2 x)
  then show ?case by simp
next
  case (3 x y ys)
  then show ?case by (simp add: word_count_of_def str_split_join2)
qed

lemma chunk_loop_groups:
  "group_loop mw ss (cur, wc, gs) = (cur', wc', gs') \<Longrightarrow>
   chunk_loop h mw ss (cur, wc, map (\<lambda>g. (h, str_join g)) gs) = (cur', wc', map (\<lambda>g. (h, str_join g)) gs')"
proof (induction ss arbitrary: cur wc gs)
  case Nil
  then show ?case by simp
next
  case (Cons s ss)
  show ?case
  proof (cases "wc + int (length (str_split s)) \<ge> mw")
    case True
    with Cons.prems have "group_loop mw ss ([], 0, gs @ [cur @ [s]]) = (cur', wc', gs')"
      by simp
    from Cons.IH[OF this] True show ?thesis by simp
  next
    case False
    with Cons.prems have "group_loop mw ss (cur @ [s], wc + int (length (str_split s)), gs) = (cur', wc', gs')"
      by simp
    from Cons.IH[OF this] False show ?thesis by simp
  qed
qed

lemma split_section_groups:
  "split_section_into_chunks tok h text mw =
     map (\<lambda>g. (h, str_join g)) (sentence_groups mw (tok text))"
proof -
  obtain cur wc gs where g: "group_loop mw (tok text) ([], 0, []) = (cur, wc, gs)"
    by (metis prod_cases3)
  from chunk_loop_groups[OF g, of h] show ?thesis
    by (simp add: split_section_into_chunks_def sentence_groups_def g)
qed

lemma group_loop_inv:
  "chunk_inv mw (cur, wc, gs) \<Longrightarrow> chunk_inv mw (group_loop mw ss (cur, wc, gs))"
proof (induction ss arbitrary: cur wc gs)
  case Nil
  then show ?case by simp
next
  case (Cons s ss)
  show ?case
  proof (cases "wc + int (length (str_split s)) \<ge> mw")
    case True
    have "chunk_inv mw ([], 0, gs @ [cur @ [s]])"
      using Cons.prems True by (auto simp: chunk_inv_def word_count_of_def)
    from Cons.IH[OF this] True show ?thesis by simp
  next
    case False
    have "chunk_inv mw (cur @ [s], wc + int (length (str_split s)), gs)"
      using Cons.prems False by (auto simp: chunk_inv_def word_count_of_def)
    from Cons.IH[OF this] False show ?thesis by simp
  qed
qed

lemma group_loop_concat:
  "group_loop mw ss (cur, wc, gs) = (cur', wc', gs') \<Longrightarrow>
   concat gs' @ cur' = concat gs @ cur @ ss"
proof (induction ss arbitrary: cur wc gs)
  case Nil
  then show ?case by simp
next
  case (Cons s ss)
  show ?case
  proof (cases "wc + int (length (str_split s)) \<ge> mw")
    case True
    with Cons.prems have "group_loop mw ss ([], 0, gs @ [cur @ [s]]) = (cur', wc', gs')"
      by simp
    from Cons.IH[OF this] show ?thesis by simp
  next
    case False
    with Cons.prems have "group_loop mw ss (cur @ [s], wc + int (length (str_split s)), gs) = (cur', wc', gs')"
      by simp
    from Cons.IH[OF this] show ?thesis by simp
  qed
qed

lemma sentence_groups_concat: "concat (sentence_groups mw ss) = ss"
proof -
  obtain cur wc gs where g: "group_loop mw ss ([], 0, []) = (cur, wc, gs)"
    by (metis prod_cases3)
  from group_loop_concat[OF g] show ?thesis
    by (auto simp: sentence_groups_def g)
qed


lemma word_count_of_nonneg: "0 \<le> word_count_of s"
  by (simp add: word_count_of_def)

lemma sum_word_count_nonneg: "0 \<le> sum_list (map word_count_of g)"
  by (induction g) (auto simp: word_count_of_def)

lemma sum_butlast_last:
  "g \<noteq> [] \<Longrightarrow> sum_list (map word_count_of g) =
     sum_list (map word_count_of (butlast g)) + word_count_of (last g)"
proof -
  assume "g \<noteq> []"
  then have "g = butlast g @ [last g]" by simp
  then have "sum_list (map word_count_of g) =
      sum_list (map word_count_of (butlast g @ [last g]))" by simp
  then show ?thesis by simp
qed

lemma sentence_groups_cases:
  obtains cur wc gs where "group_loop mw ss ([], 0, []) = (cur, wc, gs)"
    "chunk_inv mw (cur, wc, gs)"
    "sentence_groups mw ss = (if cur \<noteq> [] then gs @ [cur] else gs)"
proof -
  obtain cur wc gs where g: "group_loop mw ss ([], 0, []) = (cur, wc, gs)"
    by (metis prod_cases3)
  have "chunk_inv mw ([], 0, [])" by (simp add: chunk_inv_def)
  from group_loop_inv[OF this, of ss] g have "chunk_inv mw (cur, wc, gs)" by simp
  moreover have "sentence_groups mw ss = (if cur \<noteq> [] then gs @ [cur] else gs)"
    by (simp add: sentence_groups_def g)
  ultimately show ?thesis using g that by blast
qed

lemma sentence_groups_butlast:
  assumes "g \<in> set (butlast (sentence_groups mw ss))"
  shows "mw \<le> sum_list (map word_count_of g)"
proof -
  obtain cur wc gs where i: "chunk_inv mw (cur, wc, gs)"
    and s: "sentence_groups mw ss = (if cur \<noteq> [] then gs @ [cur] else gs)"
    by (rule sentence_groups_cases)
  have "g \<in> set gs"
  proof (cases "cur = []")
    case True
    with s assms show ?thesis by (auto dest: in_set_butlastD)
  next
    case False
    with s assms show ?thesis by simp
  qed
  with i show ?thesis by (auto simp: chunk_inv_def)
qed

lemma sentence_groups_bound:
  assumes "g \<in> set (sentence_groups mw ss)"
  shows "g \<noteq> [] \<and> (length g = 1 \<or> sum_list (map word_count_of (butlast g)) < mw)"
proof -
  obtain cur wc gs where i: "chunk_inv mw (cur, wc, gs)"
    and s: "sentence_groups mw ss = (if cur \<noteq> [] then gs @ [cur] else gs)"
    by (rule sentence_groups_cases)
  show ?thesis
  proof (cases "g \<in> set gs")
    case True
    with i show ?thesis by (auto simp: chunk_inv_def)
  next
    case False
    with s assms have c: "cur \<noteq> []" "g = cur" by (auto split: if_splits)
    with i have lt: "sum_list (map word_count_of g) < mw" by (auto simp: chunk_inv_def)
    from sum_butlast_last[of g] c word_count_of_nonneg[of "last g"]
    have "sum_list (map word_count_of (butlast g)) \<le> sum_list (map word_count_of g)"
      by simp
    with lt c show ?thesis by simp
  qed
qed

text \<open>
  Claim C2, as the code has it. A chunk is emitted when the running word count reaches or
  exceeds \<open>max_words\<close>, so the sentence that completes a chunk is taken whole: every
  chunk of the sentence-based chunker is a single sentence, or has a word count below
  \<open>max_words\<close> plus the word count of its last sentence. It may exceed \<open>max_words\<close>
  though no sentence alone does. The word count of a chunk text is the sum of the word
  counts of its sentences, and the sentences of the chunks, in emission order, are the
  sentences of the section: no sentence is split across chunks.
\<close>

theorem chunk_exceeds_by_less_than_last_sentence:
  "split_section_into_chunks tok h body mw =
     map (\<lambda>g. (h, str_join g)) (sentence_groups mw (tok body)) \<and>
   concat (sentence_groups mw (tok body)) = tok body \<and>
   (\<forall>g\<in>set (sentence_groups mw (tok body)).
      g \<noteq> [] \<and> word_count_of (str_join g) = sum_list (map word_count_of g) \<and>
      (length g = 1 \<or> word_count_of (str_join g) < mw + word_count_of (last g)))"
proof -
  have "g \<noteq> [] \<and> word_count_of (str_join g) = sum_list (map word_count_of g) \<and>
      (length g = 1 \<or> word_count_of (str_join g) < mw + word_count_of (last g))"
    if g: "g \<in> set (sentence_groups mw (tok body))" for g
  proof -
    from sentence_groups_bound[OF g] have ne: "g \<noteq> []"
      and b: "length g = 1 \<or> sum_list (map word_count_of (butlast g)) < mw" by auto
    from sum_butlast_last[OF ne] b
    have "length g = 1 \<or> sum_list (map word_count_of g) < mw + word_count_of (last g)"
      by auto
    with ne show ?thesis by (simp add: word_count_join)
  qed
  with split_section_groups[of tok h body mw] sentence_groups_concat[of mw "tok body"]
  show ?thesis by blast
qed

text \<open>
  Claim C3. Every chunk the sentence-based chunker emits, except possibly the last, has a
  word count of at least \<open>max_words\<close> when it is emitted, and the sentences of the
  chunks, concatenated in emission order, are the sentences of the section, none lost,
  duplicated or reordered. This holds for every section, in particular for those whose
  total word count exceeds \<open>max_words\<close>.
\<close>

theorem chunks_reach_max_words_and_keep_sentences:
  "split_section_into_chunks tok h body mw =
     map (\<lambda>g. (h, str_join g)) (sentence_groups mw (tok body)) \<and>
   concat (sentence_groups mw (tok body)) = tok body \<and>
   (\<forall>g\<in>set (butlast (sentence_groups mw (tok body))).
      word_count_of (str_join g) = sum_list (map word_count_of g) \<and>
      mw \<le> sum_list (map word_count_of g))"
  using split_section_groups[of tok h body mw] sentence_groups_concat[of mw "tok body"]
    sentence_groups_butlast[of _ mw "tok body"] word_count_join
  by blast

lemmas chunk_eval = split_section_into_chunks_def sentence_groups_def example_sent_tokenize_def
  word_count_of_def str_split_def is_space_def

theorem chunk_exceeds_by_less_than_last_sentence_witness:
  "sentence_groups 5 (example_sent_tokenize ''The car is red. It is fast too.'')
     = [[''The car is red.'', ''It is fast too.'']]
   \<and> concat [[''The car is red.'', ''It is fast too.'']]
     = example_sent_tokenize ''The car is red. It is fast too.''
   \<and> [''The car is red.'', ''It is fast too.''] \<noteq> []
   \<and> length [''The car is red.'', ''It is fast too.''] \<noteq> 1
   \<and> word_count_of (str_join [''The car is red.'', ''It is fast too.''])
       < 5 + word_count_of (last [''The car is red.'', ''It is fast too.''])"
proof -
  have e: "sentence_groups 5 (example_sent_tokenize ''The car is red. It is fast too.'')
     = [[''The car is red.'', ''It is fast too.'']]"
    by (simp add: chunk_eval)
  have m: "[''The car is red.'', ''It is fast too.'']
     \<in> set (sentence_groups 5 (example_sent_tokenize ''The car is red. It is fast too.''))"
    unfolding e by simp
  from chunk_exceeds_by_less_than_last_sentence
         [of example_sent_tokenize "''H''" "''The car is red. It is fast too.''" 5] m
  have b: "length [''The car is red.'', ''It is fast too.''] = 1 \<or>
     word_count_of (str_join [''The car is red.'', ''It is fast too.''])
       < 5 + word_count_of (last [''The car is red.'', ''It is fast too.''])"
    and c: "concat (sentence_groups 5 (example_sent_tokenize ''The car is red. It is fast too.''))
       = example_sent_tokenize ''The car is red. It is fast too.''"
    by blast+
  from b have b1: "word_count_of (str_join [''The car is red.'', ''It is fast too.''])
       < 5 + word_count_of (last [''The car is red.'', ''It is fast too.''])"
    by simp
  from c have c1: "concat [[''The car is red.'', ''It is fast too.'']]
       = example_sent_tokenize ''The car is red. It is fast too.''"
    unfolding e .
  have n: "[''The car is red.'', ''It is fast too.''] \<noteq> []"
    and l: "length [''The car is red.'', ''It is fast too.''] \<noteq> 1"
    by simp_all
  from e c1 n l b1 show ?thesis by (intro conjI)
qed

text \<open>
  The claim as stated fails: with \<open>max_words = 5\<close>, two sentences of four words each
  make one chunk of eight words, and neither sentence exceeds five words.
\<close>

theorem chunk_over_max_words_counterexample:
  "split_section_into_chunks example_sent_tokenize ''H'' ''The car is red. It is fast too.'' 5
     = [(''H'', ''The car is red. It is fast too.'')]
   \<and> example_sent_tokenize ''The car is red. It is fast too.''
     = [''The car is red.'', ''It is fast too.'']
   \<and> word_count_of ''The car is red. It is fast too.'' = 8
   \<and> word_count_of ''The car is red.'' = 4
   \<and> word_count_of ''It is fast too.'' = 4"
  by (simp add: chunk_eval)

theorem chunks_reach_max_words_and_keep_sentences_witness:
  "sentence_groups 4 (example_sent_tokenize ''The car is red. It is fast too.'')
     = [[''The car is red.''], [''It is fast too.'']]
   \<and> split_section_into_chunks example_sent_tokenize ''H'' ''The car is red. It is fast too.'' 4
     = [(''H'', ''The car is red.''), (''H'', ''It is fast too.'')]
   \<and> concat [[''The car is red.''], [''It is fast too.'']]
     = example_sent_tokenize ''The car is red. It is fast too.''
   \<and> 4 \<le> sum_list (map word_count_of [''The car is red.''])"
proof -
  have e: "sentence_groups 4 (example_sent_tokenize ''The car is red. It is fast too.'')
     = [[''The car is red.''], [''It is fast too.'']]"
    by (simp add: chunk_eval)
  have m: "[''The car is red.'']
     \<in> set (butlast (sentence_groups 4 (example_sent_tokenize ''The car is red. It is fast too.'')))"
    unfolding e by simp
  from chunks_reach_max_words_and_keep_sentences
         [of example_sent_tokenize "''H''" "''The car is red. It is fast too.''" 4] m
  have "split_section_into_chunks example_sent_tokenize ''H'' ''The car is red. It is fast too.'' 4
       = map (\<lambda>g. (''H'', str_join g))
          (sentence_groups 4 (example_sent_tokenize ''The car is red. It is fast too.''))"
    and "concat (sentence_groups 4 (example_sent_tokenize ''The car is red. It is fast too.''))
       = example_sent_tokenize ''The car is red. It is fast too.''"
    and "4 \<le> sum_list (map word_count_of [''The car is red.''])"
    by blast+
  then show ?thesis unfolding e by simp
qed

section \<open>Properties of pattern-based segmentation\<close>

lemma slice_shift: "slice (p @ rest) (i + length p) (j + length p) = slice rest i j"
  by (simp add: slice_def)

lemma slice_shift_end: "slice (p @ rest) (i + length p) (length (p @ rest)) = slice rest i (length rest)"
  by (simp add: slice_def)

lemma pdf_sections_loop_shift:
  "pdf_sections_loop tok (p @ rest) mw (map (shift_match (length p)) ms) =
   pdf_sections_loop tok rest mw ms"
proof (induction ms)
  case Nil
  then show ?case by simp
next
  case (Cons m ms)
  show ?case
  proof (cases ms)
    case Nil
    then show ?thesis
      using slice_shift_end[of p rest "m_end m"] by (simp add: shift_match_def)
  next
    case (Cons m1 ms1)
    with Cons.IH show ?thesis
      using slice_shift[of p rest "m_end m" "m_start m1"] by (simp add: shift_match_def)
  qed
qed

lemma split_section_heading:
  "c \<in> set (split_section_into_chunks tok h body mw) \<Longrightarrow> fst c = h"
  by (auto simp: split_section_groups)

lemma pdf_sections_loop_headings:
  "c \<in> set (pdf_sections_loop tok body mw ms) \<Longrightarrow> \<exists>m\<in>set ms. fst c = str_strip (m_group1 m)"
proof (induction ms)
  case Nil
  then show ?case by simp
next
  case (Cons m ms)
  then show ?case by (auto simp: Let_def dest: split_section_heading)
qed

lemma re_split_from_shift:
  "re_split_from (p @ rest) (pos + length p) (map (shift_match (length p)) ms) =
   re_split_from rest pos ms"
proof (induction ms arbitrary: pos)
  case Nil
  then show ?case by simp
next
  case (Cons m ms)
  from Cons.IH[of "m_end m"] show ?case
    using slice_shift[of p rest pos "m_start m"] by (simp add: shift_match_def)
qed

lemma drop1_re_split_shift:
  "drop 1 (re_split (p @ rest) (map (shift_match (length p)) ms)) = drop 1 (re_split rest ms)"
proof (cases ms)
  case Nil
  then show ?thesis by (simp add: re_split_def)
next
  case (Cons m ms1)
  with re_split_from_shift[of p rest "m_end m" ms1] show ?thesis
    by (simp add: re_split_def shift_match_def)
qed

lemma section_windows_heading:
  "section_windows re h raw mw = Inr cs \<Longrightarrow> c \<in> set cs \<Longrightarrow> fst c = h"
  by (auto simp: section_windows_def Let_def split: if_splits)

lemma re_split_from_nonempty: "\<exists>b tl. re_split_from body pos ms = b # tl"
  by (cases ms) auto

lemma sections_loop_headings:
  "sections_loop re mw (drop 1 (re_split_from body pos ms)) = Inr out \<Longrightarrow> c \<in> set out \<Longrightarrow>
   \<exists>m\<in>set ms. fst c = str_strip (m_group1 m)"
proof (induction ms arbitrary: pos out)
  case Nil
  then show ?case by simp
next
  case (Cons m ms)
  from re_split_from_nonempty[of body "m_end m" ms] obtain b tl
    where b: "re_split_from body (m_end m) ms = b # tl" by blast
  then have tl: "drop 1 (re_split_from body (m_end m) ms) = tl" by simp
  from Cons.prems(1) b
  have "sections_loop re mw (m_group1 m # b # tl) = Inr out" by simp
  then obtain cs cs1 where cs: "section_windows re (str_strip (m_group1 m)) b mw = Inr cs"
    and cs1: "sections_loop re mw tl = Inr cs1" and out: "out = cs @ cs1"
    by (auto split: sum.splits)
  show ?case
  proof (cases "c \<in> set cs")
    case True
    from section_windows_heading[OF cs True] show ?thesis by simp
  next
    case False
    with out Cons.prems(2) have "c \<in> set cs1" by simp
    from Cons.IH[of "m_end m" cs1] cs1 tl this show ?thesis by auto
  qed
qed

text \<open>
  Claim C10. In pattern-based segmentation, when the heading pattern has at least one
  match, the text before the first match is discarded: two documents that differ only in
  the text in front of a common rest, with the same matches in that rest, give the same
  chunks, and every chunk carries the heading of a match (there is no leading sentinel
  section). This holds for \<open>split_pdf_with_nlp\<close>, on the cleaned text, and for
  \<open>split_by_sections\<close>.
\<close>

theorem text_before_first_heading_is_discarded:
  "(ms \<noteq> [] \<and> clean_text re doc1 = p1 @ rest \<and> clean_text re doc2 = p2 @ rest \<and>
    finditer_pdf re (p1 @ rest) = map (shift_match (length p1)) ms \<and>
    finditer_pdf re (p2 @ rest) = map (shift_match (length p2)) ms \<longrightarrow>
      split_pdf_with_nlp re tok doc1 mw = split_pdf_with_nlp re tok doc2 mw \<and>
      (\<forall>c\<in>set (split_pdf_with_nlp re tok doc1 mw). \<exists>m\<in>set ms. fst c = str_strip (m_group1 m)))
   \<and>
   (ns \<noteq> [] \<and>
    finditer_sections re (q1 @ rest2) = map (shift_match (length q1)) ns \<and>
    finditer_sections re (q2 @ rest2) = map (shift_match (length q2)) ns \<longrightarrow>
      split_by_sections re (q1 @ rest2) mw = split_by_sections re (q2 @ rest2) mw \<and>
      (\<forall>out. split_by_sections re (q1 @ rest2) mw = Inr out \<longrightarrow>
         (\<forall>c\<in>set out. \<exists>m\<in>set ns. fst c = str_strip (m_group1 m))))"
proof (intro conjI impI)
  assume a: "ms \<noteq> [] \<and> clean_text re doc1 = p1 @ rest \<and> clean_text re doc2 = p2 @ rest \<and>
    finditer_pdf re (p1 @ rest) = map (shift_match (length p1)) ms \<and>
    finditer_pdf re (p2 @ rest) = map (shift_match (length p2)) ms"
  then have r1: "split_pdf_with_nlp re tok doc1 mw = pdf_sections_loop tok rest mw ms"
    by (simp add: split_pdf_with_nlp_def pdf_sections_loop_shift)
  from a have r2: "split_pdf_with_nlp re tok doc2 mw = pdf_sections_loop tok rest mw ms"
    by (simp add: split_pdf_with_nlp_def pdf_sections_loop_shift)
  from r1 r2 show "split_pdf_with_nlp re tok doc1 mw = split_pdf_with_nlp re tok doc2 mw"
    by simp
  from r1 show "\<forall>c\<in>set (split_pdf_with_nlp re tok doc1 mw). \<exists>m\<in>set ms. fst c = str_strip (m_group1 m)"
    using pdf_sections_loop_headings[of _ tok rest mw ms] by auto
next
  assume a: "ns \<noteq> [] \<and>
    finditer_sections re (q1 @ rest2) = map (shift_match (length q1)) ns \<and>
    finditer_sections re (q2 @ rest2) = map (shift_match (length q2)) ns"
  then have r1: "split_by_sections re (q1 @ rest2) mw = sections_loop re mw (drop 1 (re_split rest2 ns))"
    using drop1_re_split_shift[of q1 rest2 ns] by (simp add: split_by_sections_def)
  from a have r2: "split_by_sections re (q2 @ rest2) mw = sections_loop re mw (drop 1 (re_split rest2 ns))"
    using drop1_re_split_shift[of q2 rest2 ns] by (simp add: split_by_sections_def)
  from r1 r2 show "split_by_sections re (q1 @ rest2) mw = split_by_sections re (q2 @ rest2) mw"
    by simp
  from r1 show "\<forall>out. split_by_sections re (q1 @ rest2) mw = Inr out \<longrightarrow>
         (\<forall>c\<in>set out. \<exists>m\<in>set ns. fst c = str_strip (m_group1 m))"
    using sections_loop_headings[of re mw rest2 0 ns] by (auto simp: re_split_def)
qed


lemmas segment_eval = split_pdf_with_nlp_def split_by_sections_def clean_text_def clean_text_pp_def
  example_engine_def shift_match_def str_strip_def is_space_def slice_def re_split_def
  section_windows_def str_split_def

theorem text_before_first_heading_is_discarded_witness:
  "split_pdf_with_nlp example_engine example_sent_tokenize ''old text Summary: The car is red.'' 300
     = [(''Summary'', ''The car is red.'')]
   \<and> split_pdf_with_nlp example_engine example_sent_tokenize ''new Summary: The car is red.'' 300
     = [(''Summary'', ''The car is red.'')]
   \<and> split_by_sections example_engine
        (''intro text'' @ [CHR 0x0A] @ ''Heading'' @ [CHR 0x0A] @ ''The car is red.'') 300
     = Inr [(''Heading'', ''The car is red.'')]
   \<and> split_by_sections example_engine
        (''other'' @ [CHR 0x0A] @ ''Heading'' @ [CHR 0x0A] @ ''The car is red.'') 300
     = Inr [(''Heading'', ''The car is red.'')]"
proof -
  let ?ms = "[\<lparr>m_start = 0, m_end = 9, m_group1 = ''Summary''\<rparr>]"
  let ?rest = "'' Summary: The car is red.''"
  let ?ns = "[\<lparr>m_start = 0, m_end = 9, m_group1 = ''Heading''\<rparr>]"
  let ?rest2 = "[CHR 0x0A] @ ''Heading'' @ [CHR 0x0A] @ ''The car is red.''"
  have h1: "?ms \<noteq> [] \<and>
    clean_text example_engine ''old text Summary: The car is red.'' = ''old text'' @ ?rest \<and>
    clean_text example_engine ''new Summary: The car is red.'' = ''new'' @ ?rest \<and>
    finditer_pdf example_engine (''old text'' @ ?rest) = map (shift_match (length ''old text'')) ?ms \<and>
    finditer_pdf example_engine (''new'' @ ?rest) = map (shift_match (length ''new'')) ?ms"
    by (simp add: clean_text_def example_engine_def shift_match_def str_strip_def is_space_def)
  have h2: "?ns \<noteq> [] \<and>
    finditer_sections example_engine (''intro text'' @ ?rest2) = map (shift_match (length ''intro text'')) ?ns \<and>
    finditer_sections example_engine (''other'' @ ?rest2) = map (shift_match (length ''other'')) ?ns"
    by (simp add: example_engine_def shift_match_def)
  have e1: "split_pdf_with_nlp example_engine example_sent_tokenize ''old text Summary: The car is red.'' 300
     = [(''Summary'', ''The car is red.'')]"
    by (simp add: segment_eval chunk_eval)
  have e2: "split_by_sections example_engine (''intro text'' @ ?rest2) 300
     = Inr [(''Heading'', ''The car is red.'')]"
    by (simp add: segment_eval)
  from text_before_first_heading_is_discarded
    [of ?ms example_engine "''old text Summary: The car is red.''" "''old text''" ?rest
        "''new Summary: The car is red.''" "''new''" example_sent_tokenize 300
        ?ns "''intro text''" ?rest2 "''other''"] h1 h2
  have "split_pdf_with_nlp example_engine example_sent_tokenize ''old text Summary: The car is red.'' 300
      = split_pdf_with_nlp example_engine example_sent_tokenize ''new Summary: The car is red.'' 300"
    and "split_by_sections example_engine (''intro text'' @ ?rest2) 300
      = split_by_sections example_engine (''other'' @ ?rest2) 300"
    by blast+
  with e1 e2 show ?thesis by simp
qed


subsection \<open>Documents without a heading match\<close>

text \<open>
  Claim C4. When the heading pattern has no match, \<open>split_pdf_with_nlp\<close> chunks the
  whole cleaned document under the heading \<open>Generic\<close>; \<open>split_by_sections\<close> has no
  such fallback and returns no chunk at all.
\<close>

theorem no_heading_match_generic_or_nothing:
  "(finditer_pdf re (clean_text re doc) = [] \<longrightarrow>
      split_pdf_with_nlp re tok doc mw =
        split_section_into_chunks tok ''Generic'' (clean_text re doc) mw)
   \<and> (finditer_sections re doc = [] \<longrightarrow> split_by_sections re doc mw = Inr [])"
  by (simp add: split_pdf_with_nlp_def split_by_sections_def re_split_def)

theorem no_heading_match_generic_or_nothing_witness:
  "finditer_pdf example_engine (clean_text example_engine ''The car is red. It is fast too.'') = []
   \<and> finditer_sections example_engine ''The car is red. It is fast too.'' = []
   \<and> split_pdf_with_nlp example_engine example_sent_tokenize ''The car is red. It is fast too.'' 500
     = [(''Generic'', ''The car is red. It is fast too.'')]
   \<and> split_by_sections example_engine ''The car is red. It is fast too.'' 500 = Inr []"
proof -
  have c: "clean_text example_engine ''The car is red. It is fast too.''
      = ''The car is red. It is fast too.''"
    by (simp add: clean_text_def example_engine_def str_strip_def is_space_def)
  have h1: "finditer_pdf example_engine
      (clean_text example_engine ''The car is red. It is fast too.'') = []"
    unfolding c by (simp add: example_engine_def)
  have h2: "finditer_sections example_engine ''The car is red. It is fast too.'' = []"
    by (simp add: example_engine_def)
  have e: "split_section_into_chunks example_sent_tokenize ''Generic''
      ''The car is red. It is fast too.'' 500 = [(''Generic'', ''The car is red. It is fast too.'')]"
    by (simp add: chunk_eval)
  from no_heading_match_generic_or_nothing
         [of example_engine "''The car is red. It is fast too.''" example_sent_tokenize 500] h1 h2
  have "split_pdf_with_nlp example_engine example_sent_tokenize ''The car is red. It is fast too.'' 500
      = split_section_into_chunks example_sent_tokenize ''Generic''
          (clean_text example_engine ''The car is red. It is fast too.'') 500"
    and "split_by_sections example_engine ''The car is red. It is fast too.'' 500 = Inr []"
    by blast+
  with h1 h2 e show ?thesis unfolding c by simp
qed

subsection \<open>Sections with an empty body\<close>

text \<open>
  Claim C5. For a section whose body is empty, the sentence-based path emits no chunk
  (the tokenizer gives no sentence for the empty text). The fixed-window path of
  \<open>split_by_sections\<close> has no guard for the empty body: for \<open>max_words\<close> not negative
  it appends one chunk with the section's heading and the empty text.
\<close>

theorem empty_body_chunks:
  "(tok [] = [] \<longrightarrow> split_section_into_chunks tok h [] mw = [])
   \<and> (clean_text_pp re raw = [] \<and> 0 \<le> mw \<longrightarrow> section_windows re h raw mw = Inr [(h, [])])"
  by (simp add: split_section_into_chunks_def section_windows_def str_split_def)

theorem empty_body_chunks_witness:
  "example_sent_tokenize [] = []
   \<and> split_section_into_chunks example_sent_tokenize ''Heading'' [] 500 = []
   \<and> clean_text_pp example_engine [] = []
   \<and> section_windows example_engine ''Heading'' [] 500 = Inr [(''Heading'', [])]"
proof -
  have h1: "example_sent_tokenize [] = []"
    by (simp add: example_sent_tokenize_def)
  have h2: "clean_text_pp example_engine [] = [] \<and> (0::int) \<le> 500"
    by (simp add: clean_text_pp_def example_engine_def str_strip_def)
  from empty_body_chunks[of example_sent_tokenize "''Heading''" 500 example_engine "[]"] h1 h2
  have "split_section_into_chunks example_sent_tokenize ''Heading'' [] 500 = []"
    and "section_windows example_engine ''Heading'' [] 500 = Inr [(''Heading'', [])]"
    by blast+
  with h1 h2 show ?thesis by simp
qed

text \<open>
  A document that is one heading line with nothing after it has one section, with an
  empty body, and \<open>split_by_sections\<close> emits a chunk with empty text for it.
\<close>

theorem split_by_sections_empty_body_chunk:
  "split_by_sections example_engine (''Heading'' @ [CHR 0x0A]) 300 = Inr [(''Heading'', [])]
   \<and> re_split (''Heading'' @ [CHR 0x0A]) (finditer_sections example_engine (''Heading'' @ [CHR 0x0A]))
     = [[], ''Heading'', []]"
  by (simp add: segment_eval)

section \<open>Properties of the retry loops\<close>

lemma groq_loop_retried:
  "\<forall>k\<in>set ks. groq_retried_failure post loads k \<Longrightarrow>
   groq_loop post loads uniform (ks @ rest) =
     then_events (groq_backoff uniform ks) (groq_loop post loads uniform rest)"
proof (induction ks)
  case Nil
  then show ?case by (simp add: then_events_def groq_backoff_def)
next
  case (Cons k ks)
  then have ih: "groq_loop post loads uniform (ks @ rest) =
     then_events (groq_backoff uniform ks) (groq_loop post loads uniform rest)" by simp
  from Cons.prems have f: "groq_retried_failure post loads k" by simp
  show ?case
  proof (cases "post k")
    case PostRaised
    then show ?thesis by (simp add: ih then_events_def groq_backoff_def)
  next
    case (Response status_code message)
    show ?thesis
    proof (cases "status_code = 200")
      case False
      with Response show ?thesis by (simp add: ih then_events_def groq_backoff_def)
    next
      case True
      show ?thesis
      proof (cases message)
        case None
        with Response True show ?thesis by (simp add: ih then_events_def groq_backoff_def)
      next
        case (Some content)
        with f Response True have "loads content = LoadsRaised"
          by (simp add: groq_retried_failure_def)
        with Response True Some show ?thesis
          by (simp add: ih then_events_def groq_backoff_def)
      qed
    qed
  qed
qed

lemma groq_loop_first:
  "\<exists>tail out. groq_loop post loads uniform (k # rest) = (Call k # tail, out)"
  by (auto simp: then_events_def split: http_reply.splits option.splits loads_result.splits)

lemma groq_loop_malformed:
  "groq_malformed post loads k \<Longrightarrow>
   groq_loop post loads uniform (k # rest) = ([Call k], ReturnedEmptyList)"
  by (auto simp: groq_malformed_def split: http_reply.splits option.splits loads_result.splits)

lemma eval_loop_failures:
  "\<forall>k\<in>set ks. eval_failure evaluate_chunk loads k \<and> int k \<noteq> retries \<Longrightarrow>
   eval_loop evaluate_chunk loads uniform retries delay (ks @ rest) =
     then_events (eval_backoff uniform delay ks)
       (eval_loop evaluate_chunk loads uniform retries delay rest)"
proof (induction ks)
  case Nil
  then show ?case by (simp add: then_events_def eval_backoff_def)
next
  case (Cons k ks)
  then have ih: "eval_loop evaluate_chunk loads uniform retries delay (ks @ rest) =
     then_events (eval_backoff uniform delay ks)
       (eval_loop evaluate_chunk loads uniform retries delay rest)" by simp
  from Cons.prems have f: "eval_failure evaluate_chunk loads k" "int k \<noteq> retries" by simp_all
  then show ?case
    by (simp add: ih then_events_def eval_backoff_def eval_failure_def)
qed

lemma eval_loop_first:
  "\<exists>tail out. eval_loop evaluate_chunk loads uniform retries delay (k # rest) = (Call k # tail, out)"
  by (auto simp: then_events_def split: option.splits)

lemma upt_split: "a \<le> n \<Longrightarrow> n < b \<Longrightarrow> [a..<b] = [a..<n] @ n # [Suc n..<b]"
  by (metis le_Suc_ex less_imp_le_nat upt_add_eq_append upt_conv_Cons)


lemma safe_evaluate_chunk_next_attempt:
  assumes "\<forall>k\<in>{1..n}. eval_failure evaluate_chunk loads k" "int n < retries"
  shows "\<exists>tail out. safe_evaluate_chunk evaluate_chunk loads uniform retries delay =
          (eval_backoff uniform delay [1..<Suc n] @ Call (Suc n) # tail, out)"
proof -
  have lt: "Suc n < nat (retries + 1)" using assms(2) by linarith
  have sp: "[1..<nat (retries + 1)] = [1..<Suc n] @ Suc n # [Suc (Suc n)..<nat (retries + 1)]"
    using upt_split[of 1 "Suc n" "nat (retries + 1)"] lt by simp
  have f: "\<forall>k\<in>set [1..<Suc n]. eval_failure evaluate_chunk loads k \<and> int k \<noteq> retries"
    using assms by auto
  obtain tail out where
    t: "eval_loop evaluate_chunk loads uniform retries delay
          (Suc n # [Suc (Suc n)..<nat (retries + 1)]) = (Call (Suc n) # tail, out)"
    using eval_loop_first by blast
  show ?thesis
    unfolding safe_evaluate_chunk_def sp eval_loop_failures[OF f] t
    by (simp add: then_events_def)
qed

lemma safe_evaluate_chunk_exhausted:
  assumes "\<forall>k\<in>{1..nat retries}. eval_failure evaluate_chunk loads k" "0 < retries"
  shows "safe_evaluate_chunk evaluate_chunk loads uniform retries delay =
          (eval_backoff uniform delay [1..<nat retries] @ [Call (nat retries)], Reraised)"
proof -
  have sp: "[1..<nat (retries + 1)] = [1..<nat retries] @ nat retries # []"
    using upt_split[of 1 "nat retries" "nat (retries + 1)"] assms(2)
    by (simp add: nat_add_distrib)
  have f: "\<forall>k\<in>set [1..<nat retries]. eval_failure evaluate_chunk loads k \<and> int k \<noteq> retries"
    using assms by auto
  have l: "eval_failure evaluate_chunk loads (nat retries)" using assms by simp
  have "eval_loop evaluate_chunk loads uniform retries delay [nat retries] = ([Call (nat retries)], Reraised)"
    using l assms(2) by (simp add: eval_failure_def)
  then show ?thesis
    unfolding safe_evaluate_chunk_def sp eval_loop_failures[OF f]
    by (simp add: then_events_def)
qed

lemma generate_questions_groq_next_attempt:
  assumes "\<forall>k<n. groq_retried_failure post loads k" "int n < retries"
  shows "\<exists>tail out. generate_questions_groq post loads uniform retries =
          (groq_backoff uniform [0..<n] @ Call n # tail, out)"
proof -
  have lt: "n < nat retries" using assms(2) by linarith
  have sp: "[0..<nat retries] = [0..<n] @ n # [Suc n..<nat retries]"
    using upt_split[of 0 n "nat retries"] lt by simp
  have f: "\<forall>k\<in>set [0..<n]. groq_retried_failure post loads k" using assms(1) by simp
  obtain tail out where
    t: "groq_loop post loads uniform (n # [Suc n..<nat retries]) = (Call n # tail, out)"
    using groq_loop_first by blast
  show ?thesis
    unfolding generate_questions_groq_def sp groq_loop_retried[OF f] t
    by (simp add: then_events_def)
qed

lemma generate_questions_groq_malformed:
  assumes "\<forall>k<n. groq_retried_failure post loads k" "int n < retries" "groq_malformed post loads n"
  shows "generate_questions_groq post loads uniform retries =
          (groq_backoff uniform [0..<n] @ [Call n], ReturnedEmptyList)"
proof -
  have lt: "n < nat retries" using assms(2) by linarith
  have sp: "[0..<nat retries] = [0..<n] @ n # [Suc n..<nat retries]"
    using upt_split[of 0 n "nat retries"] lt by simp
  have f: "\<forall>k\<in>set [0..<n]. groq_retried_failure post loads k" using assms(1) by simp
  show ?thesis
    unfolding generate_questions_groq_def sp groq_loop_retried[OF f]
      groq_loop_malformed[OF assms(3)]
    by (simp add: then_events_def)
qed

lemma generate_questions_groq_exhausted:
  assumes "\<forall>k<nat retries. groq_retried_failure post loads k"
  shows "generate_questions_groq post loads uniform retries =
          (groq_backoff uniform [0..<nat retries], RaisedRuntimeError)"
proof -
  have f: "\<forall>k\<in>set [0..<nat retries]. groq_retried_failure post loads k" using assms by simp
  from groq_loop_retried[OF f, of uniform "[]"] show ?thesis
    by (simp add: generate_questions_groq_def then_events_def)
qed

text \<open>
  Claim C9, as the code has it. In \<open>safe_evaluate_chunk\<close> every failure of an attempt,
  an exception of the call or an unparseable response, with attempts left is followed by a
  sleep of \<open>delay * 2 ^ (attempt - 1)\<close> plus jitter and by the next attempt; when all
  \<open>retries\<close> attempts fail, the last exception is raised again. In
  \<open>generate_questions_groq\<close> a request that raises, a status other than 200, an
  unreadable reply or an exception of \<open>json.loads\<close> other than \<open>JSONDecodeError\<close>
  is followed by a sleep of \<open>2 ^ attempt\<close> plus jitter and by the next attempt; when
  all \<open>retries\<close> attempts fail so, RuntimeError is raised. A reply with status 200 on
  whose content \<open>json.loads\<close> raises \<open>JSONDecodeError\<close>, with the local repair
  giving no value either, is not retried: the function returns the empty list at once,
  with no sleep and no further attempt.
\<close>

theorem oracle_failures_retried_except_malformed_groq_reply:
  "((\<forall>k\<in>{1..n}. eval_failure evaluate_chunk loads k) \<and> int n < retries \<longrightarrow>
      (\<exists>tail out. safe_evaluate_chunk evaluate_chunk loads uniform retries delay =
          (eval_backoff uniform delay [1..<Suc n] @ Call (Suc n) # tail, out)))
   \<and> ((\<forall>k\<in>{1..nat retries}. eval_failure evaluate_chunk loads k) \<and> 0 < retries \<longrightarrow>
      safe_evaluate_chunk evaluate_chunk loads uniform retries delay =
          (eval_backoff uniform delay [1..<nat retries] @ [Call (nat retries)], Reraised))
   \<and> ((\<forall>k<n. groq_retried_failure post loads k) \<and> int n < retries \<longrightarrow>
      (\<exists>tail out. generate_questions_groq post loads uniform retries =
          (groq_backoff uniform [0..<n] @ Call n # tail, out)))
   \<and> ((\<forall>k<nat retries. groq_retried_failure post loads k) \<longrightarrow>
      generate_questions_groq post loads uniform retries =
          (groq_backoff uniform [0..<nat retries], RaisedRuntimeError))
   \<and> ((\<forall>k<n. groq_retried_failure post loads k) \<and> int n < retries \<and> groq_malformed post loads n \<longrightarrow>
      generate_questions_groq post loads uniform retries =
          (groq_backoff uniform [0..<n] @ [Call n], ReturnedEmptyList))"
  using safe_evaluate_chunk_next_attempt[of n evaluate_chunk loads retries uniform delay]
    safe_evaluate_chunk_exhausted[of retries evaluate_chunk loads uniform delay]
    generate_questions_groq_next_attempt[of n post loads retries uniform]
    generate_questions_groq_exhausted[of retries post loads uniform]
    generate_questions_groq_malformed[of n post loads retries uniform]
  by blast

lemmas retry_eval = generate_questions_groq_def safe_evaluate_chunk_def then_events_def
  example_post_def malformed_post_def failing_post_def example_loads_def
  example_evaluate_chunk_def failing_evaluate_chunk_def example_uniform_def
  try_evaluate_def
  groq_backoff_def eval_backoff_def endswith_def str_strip_def is_space_def

lemma upt_0_3: "[0..<3] = [0, 1, 2::nat]"
  by (simp add: upt_conv_Cons numeral_3_eq_3 numeral_2_eq_2)

lemma upt_0_2: "[0..<2] = [0, 1::nat]"
  by (simp add: upt_conv_Cons numeral_2_eq_2)

lemma upt_1_3: "[Suc 0..<3] = [1, 2::nat]"
  by (simp add: upt_conv_Cons numeral_3_eq_3 numeral_2_eq_2)

lemma upt_1_4: "[Suc 0..<4] = [1, 2, 3::nat]"
  by (simp add: upt_conv_Cons eval_nat_numeral)

theorem oracle_failures_retried_except_malformed_groq_reply_witness:
  "eval_failure example_evaluate_chunk example_loads 1
   \<and> eval_failure example_evaluate_chunk example_loads 2
   \<and> (\<exists>tail out. safe_evaluate_chunk example_evaluate_chunk example_loads example_uniform 3 2
         = ([Call 1, Sleep 3, Call 2, Sleep 5] @ Call 3 # tail, out))
   \<and> safe_evaluate_chunk failing_evaluate_chunk example_loads example_uniform 3 2
         = ([Call 1, Sleep 3, Call 2, Sleep 5, Call 3], Reraised)
   \<and> groq_retried_failure example_post example_loads 0
   \<and> groq_retried_failure example_post example_loads 1
   \<and> (\<exists>tail out. generate_questions_groq example_post example_loads example_uniform 3
         = ([Call 0, Sleep 2, Call 1, Sleep 3] @ Call 2 # tail, out))
   \<and> generate_questions_groq failing_post example_loads example_uniform 3
         = ([Call 0, Sleep 2, Call 1, Sleep 3, Call 2, Sleep 5], RaisedRuntimeError)
   \<and> groq_malformed example_post example_loads 2
   \<and> generate_questions_groq example_post example_loads example_uniform 3
         = ([Call 0, Sleep 2, Call 1, Sleep 3, Call 2], ReturnedEmptyList)"
proof -
  have two: "k = 1 \<or> k = 2" if "k \<in> {1..2}" for k :: nat
    using that by auto
  have below2: "k = 0 \<or> k = 1" if "k < 2" for k :: nat
    using that by auto
  have e1: "eval_failure example_evaluate_chunk example_loads 1"
    and e2: "eval_failure example_evaluate_chunk example_loads 2"
    by (simp_all add: eval_failure_def retry_eval)
  have "eval_failure example_evaluate_chunk example_loads k" if "k \<in> {1..2}" for k
    using two[OF that] e1 e2 by blast
  then have h1: "(\<forall>k\<in>{1..2}. eval_failure example_evaluate_chunk example_loads k) \<and> int 2 < 3"
    by simp
  have h2: "(\<forall>k\<in>{1..nat 3}. eval_failure failing_evaluate_chunk example_loads k) \<and> (0::int) < 3"
    by (simp add: eval_failure_def retry_eval)
  have g0: "groq_retried_failure example_post example_loads 0"
    and g1: "groq_retried_failure example_post example_loads 1"
    by (simp_all add: groq_retried_failure_def retry_eval)
  have "groq_retried_failure example_post example_loads k" if "k < 2" for k
    using below2[OF that] g0 g1 by blast
  then have h3: "(\<forall>k<2. groq_retried_failure example_post example_loads k) \<and> int 2 < 3"
    by simp
  have h4: "\<forall>k<nat 3. groq_retried_failure failing_post example_loads k"
    by (simp add: groq_retried_failure_def retry_eval)
  have m: "groq_malformed example_post example_loads 2"
    by (simp add: groq_malformed_def retry_eval)
  have b1: "eval_backoff example_uniform 2 [1..<Suc 2] = [Call 1, Sleep 3, Call 2, Sleep 5]"
    by (simp add: retry_eval upt_1_3)
  have b2: "eval_backoff example_uniform 2 [1..<nat 3] = [Call 1, Sleep 3, Call 2, Sleep 5]"
    by (simp add: retry_eval upt_1_3)
  have b3: "groq_backoff example_uniform [0..<2] = [Call 0, Sleep 2, Call 1, Sleep 3]"
    by (simp add: retry_eval upt_0_2)
  have b4: "groq_backoff example_uniform [0..<nat 3]
      = [Call 0, Sleep 2, Call 1, Sleep 3, Call 2, Sleep 5]"
    by (simp add: retry_eval upt_0_3)
  from oracle_failures_retried_except_malformed_groq_reply
    [of 2 example_evaluate_chunk example_loads 3 example_uniform 2 example_post] h1 h3 m
  have c1: "\<exists>tail out. safe_evaluate_chunk example_evaluate_chunk example_loads example_uniform 3 2
         = (eval_backoff example_uniform 2 [1..<Suc 2] @ Call (Suc 2) # tail, out)"
    and c3: "\<exists>tail out. generate_questions_groq example_post example_loads example_uniform 3
         = (groq_backoff example_uniform [0..<2] @ Call 2 # tail, out)"
    and c5: "generate_questions_groq example_post example_loads example_uniform 3
         = (groq_backoff example_uniform [0..<2] @ [Call 2], ReturnedEmptyList)"
    by blast+
  from oracle_failures_retried_except_malformed_groq_reply
    [of 2 failing_evaluate_chunk example_loads 3 example_uniform 2 failing_post] h2 h4
  have c2: "safe_evaluate_chunk failing_evaluate_chunk example_loads example_uniform 3 2
         = (eval_backoff example_uniform 2 [1..<nat 3] @ [Call (nat 3)], Reraised)"
    and c4: "generate_questions_groq failing_post example_loads example_uniform 3
         = (groq_backoff example_uniform [0..<nat 3], RaisedRuntimeError)"
    by blast+
  from c1 have c1': "\<exists>tail out. safe_evaluate_chunk example_evaluate_chunk example_loads example_uniform 3 2
         = ([Call 1, Sleep 3, Call 2, Sleep 5] @ Call 3 # tail, out)"
    unfolding b1 by (simp add: numeral_3_eq_3)
  from c3 have c3': "\<exists>tail out. generate_questions_groq example_post example_loads example_uniform 3
         = ([Call 0, Sleep 2, Call 1, Sleep 3] @ Call 2 # tail, out)"
    unfolding b3 .
  from c5 have c5': "generate_questions_groq example_post example_loads example_uniform 3
         = ([Call 0, Sleep 2, Call 1, Sleep 3, Call 2], ReturnedEmptyList)"
    unfolding b3 by simp
  from c2 have c2': "safe_evaluate_chunk failing_evaluate_chunk example_loads example_uniform 3 2
         = ([Call 1, Sleep 3, Call 2, Sleep 5, Call 3], Reraised)"
    unfolding b2 by simp
  from c4 have c4': "generate_questions_groq failing_post example_loads example_uniform 3
         = ([Call 0, Sleep 2, Call 1, Sleep 3, Call 2, Sleep 5], RaisedRuntimeError)"
    unfolding b4 .
  from e1 e2 c1' c2' g0 g1 c3' c4' m c5' show ?thesis by blast
qed

text \<open>
  The claim as stated fails for \<open>generate_questions_groq\<close>: with three attempts
  configured, a reply with status 200 and content that is not JSON on the first attempt
  (attempt 0) ends the call with the empty list; there is no sleep and no second attempt.
\<close>

theorem malformed_groq_reply_not_retried_counterexample:
  "malformed_post 0 = Response 200 (Some ''not json'')
   \<and> example_loads ''not json'' = JSONDecodeError
   \<and> generate_questions_groq malformed_post example_loads example_uniform 3
        = ([Call 0], ReturnedEmptyList)"
  by (simp add: retry_eval upt_0_3)

end
